theory Spec2Isabelle
  imports Main
begin

section \<open>Strings and numbers of the source language\<close>

text \<open>JavaScript's \<open>String.prototype.startsWith\<close> with a literal prefix.\<close>

definition startsWith :: "string \<Rightarrow> string \<Rightarrow> bool" where
  "startsWith p s = (take (length p) s = p)"

text \<open>The character classes of the regular expressions: \<open>\w\<close> is \<open>[A-Za-z0-9_]\<close>,
  \<open>\s\<close> is white space (its ASCII members: space, tab, line feed, vertical tab, form feed,
  carriage return), and a dot does not match a line terminator.\<close>

definition isUpper :: "char \<Rightarrow> bool" where
  "isUpper c = (c \<in> set ''ABCDEFGHIJKLMNOPQRSTUVWXYZ'')"

definition isLowerOrUnderscore :: "char \<Rightarrow> bool" where
  "isLowerOrUnderscore c = (c \<in> set ''abcdefghijklmnopqrstuvwxyz_'')"

definition isDigit :: "char \<Rightarrow> bool" where
  "isDigit c = (c \<in> set ''0123456789'')"

definition isWordChar :: "char \<Rightarrow> bool" where
  "isWordChar c = (isUpper c \<or> isLowerOrUnderscore c \<or> isDigit c)"

definition isSpace :: "char \<Rightarrow> bool" where
  "isSpace c = (c \<in> set [CHR '' '', CHR 0x09, CHR 0x0A, CHR 0x0B, CHR 0x0C, CHR 0x0D])"

definition isLineTerminator :: "char \<Rightarrow> bool" where
  "isLineTerminator c = (c = CHR 0x0A \<or> c = CHR 0x0D)"

text \<open>A number inside a template literal: its decimal digits, with a minus sign when
  negative.\<close>

definition digitChar :: "nat \<Rightarrow> char" where
  "digitChar d = ''0123456789'' ! (d mod 10)"

function showNat :: "nat \<Rightarrow> string" where
  "showNat n = (if n < 10 then [digitChar n] else showNat (n div 10) @ [digitChar (n mod 10)])"
  by pat_completeness auto
termination
  by (relation "measure id") auto

declare showNat.simps [simp del]

definition showInt :: "int \<Rightarrow> string" where
  "showInt i = (if i < 0 then CHR ''-'' # showNat (nat (- i)) else showNat (nat i))"

text \<open>\<open>s.slice(0, e)\<close>: a negative end counts from the end of the string, and the end is
  clamped to the string.\<close>

definition slice0 :: "string \<Rightarrow> int \<Rightarrow> string" where
  "slice0 s e =
     (let n = int (length s);
          k = (if e < 0 then max (n + e) 0 else min e n)
      in take (nat k) s)"

section \<open>Diff analysis (src/git/diffAnalyzer.ts)\<close>

subsection \<open>Data model\<close>

text \<open>The interfaces \<open>Hunk\<close> and \<open>FileDiff\<close>. Line numbers are JavaScript numbers that
  only ever hold integers here; they are modelled as unbounded integers.\<close>

record Hunk =
  oldStart :: int
  newStart :: int
  lines :: "string list"

record FileDiff =
  oldPath :: string
  newPath :: string
  hunks :: "Hunk list"
  isNew :: bool
  isDeleted :: bool
  unifiedDiff :: string

subsection \<open>getChangedLineNumbers\<close>

text \<open>The body of the inner loop: the pair is the result array \<open>lines\<close> built so far and
  the variable \<open>lineNo\<close>.\<close>

fun lineStep :: "int list \<times> int \<Rightarrow> string \<Rightarrow> int list \<times> int" where
  "lineStep (acc, lineNo) line =
     (if startsWith ''+'' line then (acc @ [lineNo], lineNo + 1)
      else if \<not> startsWith ''-'' line then (acc, lineNo + 1)
      else (acc, lineNo))"

text \<open>The body of the outer loop: \<open>lineNo\<close> is initialised from the hunk, the result array
  is shared between hunks.\<close>

definition hunkStep :: "int list \<Rightarrow> Hunk \<Rightarrow> int list" where
  "hunkStep acc hunk = fst (foldl lineStep (acc, newStart hunk) (lines hunk))"

definition getChangedLineNumbers :: "FileDiff \<Rightarrow> int list" where
  "getChangedLineNumbers fileDiff = foldl hunkStep [] (hunks fileDiff)"

subsection \<open>The change-set extractor as the specification words it\<close>

text \<open>A hunk line is tagged by its leading marker: \<open>+\<close> is an added line, \<open>-\<close> a removed
  line, and every other line counts as context.\<close>

datatype lineTag = Added | Removed | Context

definition tagOf :: "string \<Rightarrow> lineTag" where
  "tagOf line = (if startsWith ''+'' line then Added
                 else if startsWith ''-'' line then Removed else Context)"

text \<open>The cursor walk over one hunk: emit and advance on an added line, advance on a
  context line, do nothing on a removed line.\<close>

fun emitFrom :: "int \<Rightarrow> lineTag list \<Rightarrow> int list" where
  "emitFrom cursor [] = []"
| "emitFrom cursor (Added # ts) = cursor # emitFrom (cursor + 1) ts"
| "emitFrom cursor (Context # ts) = emitFrom (cursor + 1) ts"
| "emitFrom cursor (Removed # ts) = emitFrom cursor ts"

definition hunkChangedLines :: "Hunk \<Rightarrow> int list" where
  "hunkChangedLines h = emitFrom (newStart h) (map tagOf (lines h))"

definition changedLinesSpec :: "FileDiff \<Rightarrow> int list" where
  "changedLinesSpec fileDiff = concat (map hunkChangedLines (hunks fileDiff))"

text \<open>The number of new-file lines a hunk spans: its added and context lines.\<close>

definition newSpan :: "Hunk \<Rightarrow> int" where
  "newSpan h = int (length (filter (\<lambda>t. t \<noteq> Removed) (map tagOf (lines h))))"

text \<open>Hunks in new-file order without overlap, as a well-formed unified diff lists them.\<close>

fun hunksOrdered :: "Hunk list \<Rightarrow> bool" where
  "hunksOrdered [] = True"
| "hunksOrdered [h] = True"
| "hunksOrdered (h1 # h2 # hs) = (newStart h1 + newSpan h1 \<le> newStart h2 \<and> hunksOrdered (h2 # hs))"

subsection \<open>Sample diffs\<close>

text \<open>Two hunks listed against new-file order, as \<open>parseDiff\<close> passes them on from a
  patch text that lists them so.\<close>

definition unorderedDiff :: FileDiff where
  "unorderedDiff = \<lparr>oldPath = ''a/f'', newPath = ''b/f'',
     hunks = [\<lparr>oldStart = 5, newStart = 5, lines = [''+x'']\<rparr>,
              \<lparr>oldStart = 1, newStart = 1, lines = [''+y'']\<rparr>],
     isNew = False, isDeleted = False, unifiedDiff = ''''\<rparr>"

definition orderedDiff :: FileDiff where
  "orderedDiff = \<lparr>oldPath = ''a/f'', newPath = ''b/f'',
     hunks = [\<lparr>oldStart = 1, newStart = 1, lines = ['' a'', ''-b'', ''+c'', ''+d'']\<rparr>,
              \<lparr>oldStart = 9, newStart = 10, lines = [''+y'', '' z'']\<rparr>],
     isNew = False, isDeleted = False, unifiedDiff = ''''\<rparr>"

section \<open>The diff engine behind \<open>generateUnifiedDiff\<close> and \<open>parseDiff\<close>\<close>

text \<open>The two functions of \<open>diffAnalyzer.ts\<close> hand their work to the package \<open>diff\<close>
  (\<open>createTwoFilesPatch\<close>, \<open>parsePatch\<close>), which is not among the sources. This section
  models the package from the specification's description of the diff engine (its
  sections 4.1 and 6); the wrappers in the next subsection are from the source.\<close>

subsection \<open>Texts and lines\<close>

text \<open>Modelled from the spec: the package \<open>diff\<close> is missing; "the two texts split on
  line boundaries", as \<open>diff -u\<close> does it: a line ends at its line feed, so a text that
  ends with a line feed has no further line behind it and the empty text has no line.
  Only the last line of a text can lack its line feed; a line is kept with the fact
  whether a line feed ends it.\<close>

type_synonym textLine = "string \<times> bool"

fun textLines :: "string \<Rightarrow> textLine list" where
  "textLines [] = []"
| "textLines (c # cs) =
     (if c = CHR 0x0A then ([], True) # textLines cs
      else (case textLines cs of
              (l, ended) # ls \<Rightarrow> (c # l, ended) # ls
            | [] \<Rightarrow> [([c], False)]))"

text \<open>Modelled from the spec: the package \<open>diff\<close> is missing; the lines of a text without their line feeds.\<close>

definition splitLines :: "string \<Rightarrow> string list" where
  "splitLines s = map fst (textLines s)"

text \<open>Modelled from the spec: the package \<open>diff\<close> is missing; the inverse of the split, which the guarantee that the
  hunks' lines "reconstruct" a text "exactly" is about.\<close>

definition joinText :: "textLine list \<Rightarrow> string" where
  "joinText ls = concat (map (\<lambda>(l, ended). if ended then l @ [CHR 0x0A] else l) ls)"

text \<open>Modelled from the spec: the package \<open>diff\<close> is missing; the rendered text of section 6 is a sequence of rows,
  each followed by a line feed.\<close>

definition unlines :: "string list \<Rightarrow> string" where
  "unlines ls = concat (map (\<lambda>l. l @ [CHR 0x0A]) ls)"

subsection \<open>The edit script\<close>

text \<open>Modelled from the spec: the package \<open>diff\<close> is missing; "a minimal line-level edit
  script (longest-common-subsequence style)". Equal first lines are kept (a line with its
  line feed and the same line without are not equal); otherwise the shorter of the two
  scripts that remove the old line or insert the new line is taken, removal first.\<close>

datatype edit = Keep textLine | Remove textLine | Insert textLine

text \<open>Modelled from the spec: the package \<open>diff\<close> is missing; a line of the script is "context" when it is kept.\<close>

fun isKeep :: "edit \<Rightarrow> bool" where
  "isKeep (Keep l) = True"
| "isKeep (Remove l) = False"
| "isKeep (Insert l) = False"

text \<open>Modelled from the spec: the package \<open>diff\<close> is missing; the cost that a "minimal" script minimises: its removed
  and inserted lines.\<close>

definition changeCount :: "edit list \<Rightarrow> nat" where
  "changeCount es = length (filter (\<lambda>e. \<not> isKeep e) es)"

text \<open>Modelled from the spec: the package \<open>diff\<close> is missing; the "edit script (longest-common-subsequence style)"
  itself.\<close>

fun editScript :: "textLine list \<Rightarrow> textLine list \<Rightarrow> edit list" where
  "editScript [] ys = map Insert ys"
| "editScript (x # xs) [] = map Remove (x # xs)"
| "editScript (x # xs) (y # ys) =
     (if x = y then Keep x # editScript xs ys
      else
        (let removal = Remove x # editScript xs (y # ys);
             insertion = Insert y # editScript (x # xs) ys
         in if changeCount removal \<le> changeCount insertion then removal else insertion))"

text \<open>Modelled from the spec: the package \<open>diff\<close> is missing; the old side of a script, its "removed/context lines",
  and below its new side, its "added/context lines".\<close>

fun oldSide :: "edit list \<Rightarrow> textLine list" where
  "oldSide [] = []"
| "oldSide (Keep l # es) = l # oldSide es"
| "oldSide (Remove l # es) = l # oldSide es"
| "oldSide (Insert l # es) = oldSide es"

text \<open>Modelled from the spec: the package \<open>diff\<close> is missing; the new side of a script.\<close>

fun newSide :: "edit list \<Rightarrow> textLine list" where
  "newSide [] = []"
| "newSide (Keep l # es) = l # newSide es"
| "newSide (Remove l # es) = newSide es"
| "newSide (Insert l # es) = l # newSide es"

subsection \<open>Hunks\<close>

text \<open>Modelled from the spec: the package \<open>diff\<close> is missing; "groups contiguous changed
  regions, and expands each group by \<open>contextLines\<close> lines of surrounding unchanged text
  on each side, merging groups whose expanded context windows overlap". A hunk of the
  engine is its two 1-based start lines and its part of the script.\<close>

record editHunk =
  ehOldStart :: nat
  ehNewStart :: nat
  ehEdits :: "edit list"

text \<open>Modelled from the spec: the package \<open>diff\<close> is missing; one group with its context, "merging groups whose
  expanded context windows overlap". From a change on: the changes and the unchanged runs up
  to the end of the hunk,
  and what is left of the script. A run of unchanged lines that two context windows
  cover (at most \<open>2 * contextLines\<close> lines, as in \<open>diff -u\<close>, where two hunks never
  touch) is inside the hunk; of a longer one, or of the last, the hunk takes the first
  \<open>contextLines\<close> lines.\<close>

function hunkBody :: "nat \<Rightarrow> edit list \<Rightarrow> edit list \<times> edit list" where
  "hunkBody contextLines es =
     (let changes = takeWhile (\<lambda>e. \<not> isKeep e) es;
          unchanged = takeWhile isKeep (dropWhile (\<lambda>e. \<not> isKeep e) es);
          rest = dropWhile isKeep (dropWhile (\<lambda>e. \<not> isKeep e) es)
      in if rest = [] \<or> changes = [] then (changes @ take contextLines unchanged, drop contextLines unchanged @ rest)
         else if length unchanged \<le> 2 * contextLines
         then (case hunkBody contextLines rest of (body, rest') \<Rightarrow> (changes @ unchanged @ body, rest'))
         else (changes @ take contextLines unchanged, drop contextLines unchanged @ rest))"
  by pat_completeness auto
termination
proof (relation "measure (\<lambda>(contextLines, es). length es)")
  fix contextLines :: nat and es changes unchanged rest :: "edit list"
  assume c: "changes = takeWhile (\<lambda>e. \<not> isKeep e) es"
    and r: "rest = dropWhile isKeep (dropWhile (\<lambda>e. \<not> isKeep e) es)"
    and ne: "\<not> (rest = [] \<or> changes = [])"
  from ne c obtain e es' where es: "es = e # es'" and e: "\<not> isKeep e" by (cases es) (auto split: if_splits)
  then have "rest = dropWhile isKeep (dropWhile (\<lambda>e. \<not> isKeep e) es')" using r by simp
  moreover have "length (dropWhile isKeep (dropWhile (\<lambda>e. \<not> isKeep e) es')) \<le> length es'"
    by (meson length_dropWhile_le order_trans)
  ultimately show "((contextLines, rest), (contextLines, es)) \<in> measure (\<lambda>(contextLines, es). length es)"
    using es by simp
qed simp

declare hunkBody.simps [simp del]

lemma hunkBody_shorter:
  "hunkBody contextLines es = (body, rest) \<Longrightarrow> es \<noteq> [] \<Longrightarrow> \<not> isKeep (hd es)
   \<Longrightarrow> length rest < length es"
proof (induction contextLines es arbitrary: body rest rule: hunkBody.induct)
  case (1 contextLines es)
  define changes where "changes = takeWhile (\<lambda>e. \<not> isKeep e) es"
  define unchanged where "unchanged = takeWhile isKeep (dropWhile (\<lambda>e. \<not> isKeep e) es)"
  define tail where "tail = dropWhile isKeep (dropWhile (\<lambda>e. \<not> isKeep e) es)"
  have parts: "es = changes @ unchanged @ tail"
    by (simp add: changes_def unchanged_def tail_def)
  from "1.prems"(2,3) have ch: "changes \<noteq> []" by (cases es) (simp_all add: changes_def)
  show ?case
  proof (cases "tail \<noteq> [] \<and> length unchanged \<le> 2 * contextLines")
    case True
    obtain b r where rec: "hunkBody contextLines tail = (b, r)" by (cases "hunkBody contextLines tail")
    from True have "\<not> isKeep (hd tail)"
      unfolding tail_def by (metis hd_dropWhile)
    with "1.IH" [OF changes_def unchanged_def tail_def _ _ rec] True ch
    have "length r < length tail" by simp
    moreover from "1.prems"(1) True ch rec have "rest = r"
      by (simp add: hunkBody.simps [of contextLines es] Let_def changes_def [symmetric]
          unchanged_def [symmetric] tail_def [symmetric])
    ultimately show ?thesis using parts by simp
  next
    case False
    with "1.prems"(1) ch have "rest = drop contextLines unchanged @ tail"
      by (auto simp: hunkBody.simps [of contextLines es] Let_def changes_def [symmetric]
          unchanged_def [symmetric] tail_def [symmetric] split: if_splits)
    with parts ch show ?thesis by (cases changes) simp_all
  qed
qed

lemma hunkBody_after_lead:
  assumes "(body, rest') = hunkBody contextLines (dropWhile isKeep es)"
      and "\<exists>e\<in>set es. \<not> isKeep e"
  shows "length rest' < length es"
proof -
  from assms(2) have ne: "dropWhile isKeep es \<noteq> []" by (simp add: dropWhile_eq_Nil_conv)
  then have "\<not> isKeep (hd (dropWhile isKeep es))" by (metis hd_dropWhile)
  with hunkBody_shorter [of contextLines "dropWhile isKeep es" body rest'] assms(1) ne
  have "length rest' < length (dropWhile isKeep es)" by simp
  also have "\<dots> \<le> length es" by (rule length_dropWhile_le)
  finally show ?thesis .
qed

text \<open>Modelled from the spec: the package \<open>diff\<close> is missing; all hunks of a script, with their "1-based line
  numbers", given how many old and new lines lie before it. Of the
  unchanged lines before a change the hunk shows the last \<open>contextLines\<close>.\<close>

function hunksFrom :: "nat \<Rightarrow> nat \<Rightarrow> nat \<Rightarrow> edit list \<Rightarrow> editHunk list" where
  "hunksFrom contextLines oldNo newNo es =
     (let lead = takeWhile isKeep es;
          rest = dropWhile isKeep es
      in if rest = [] then []
         else
           (let skipped = length lead - contextLines;
                shown = drop skipped lead
            in case hunkBody contextLines rest of
                 (body, rest') \<Rightarrow>
                   \<lparr>ehOldStart = oldNo + skipped + 1, ehNewStart = newNo + skipped + 1,
                    ehEdits = shown @ body\<rparr>
                   # hunksFrom contextLines
                       (oldNo + skipped + length (oldSide (shown @ body)))
                       (newNo + skipped + length (newSide (shown @ body)))
                       rest'))"
  by pat_completeness auto
termination
  by (relation "measure (\<lambda>(contextLines, oldNo, newNo, es). length es)")
     (auto intro: hunkBody_after_lead)

declare hunksFrom.simps [simp del]

subsection \<open>Rendering\<close>

text \<open>Modelled from the spec: the package \<open>diff\<close> is missing; the text format of the
  specification's section 6, which "must match standard \<open>diff -u\<close> / git-style output":
  the two file rows with their labels behind a tab, and for every hunk the row
  \<open>@@ -oldStart,oldLineCount +newStart,newLineCount @@\<close> and its lines behind their
  markers. First the marker and the line of an edit.\<close>

fun marker :: "edit \<Rightarrow> char" where
  "marker (Keep l) = CHR '' ''"
| "marker (Remove l) = CHR ''-''"
| "marker (Insert l) = CHR ''+''"

text \<open>Modelled from the spec: the package \<open>diff\<close> is missing; the line of an edit.\<close>

fun lineOf :: "edit \<Rightarrow> textLine" where
  "lineOf (Keep l) = l"
| "lineOf (Remove l) = l"
| "lineOf (Insert l) = l"

text \<open>Modelled from the spec: the package \<open>diff\<close> is missing; the row that \<open>diff -u\<close> puts behind a line that has no
  line feed at its end.\<close>

definition noNewline :: string where
  "noNewline = CHR 0x5C # '' No newline at end of file''"

text \<open>Modelled from the spec: the package \<open>diff\<close> is missing; the rows of one edit: the line behind its marker, and
  the row \<open>noNewline\<close> when no line feed ends the line.\<close>

definition renderEdit :: "edit \<Rightarrow> string list" where
  "renderEdit e = (marker e # fst (lineOf e)) # (if snd (lineOf e) then [] else [noNewline])"

text \<open>Modelled from the spec: the package \<open>diff\<close> is missing; the row
  \<open>@@ -oldStart,oldLineCount +newStart,newLineCount @@\<close>.\<close>

definition renderHunkHeader :: "nat \<Rightarrow> nat \<Rightarrow> nat \<Rightarrow> nat \<Rightarrow> string" where
  "renderHunkHeader oldStart' oldCount newStart' newCount =
     ''@@ -'' @ showNat oldStart' @ '','' @ showNat oldCount
       @ '' +'' @ showNat newStart' @ '','' @ showNat newCount @ '' @@''"

text \<open>Modelled from the spec: the package \<open>diff\<close> is missing; the start line as \<open>diff -u\<close> writes it: for a side
  without lines in the hunk it is the line before the hunk (\<open>@@ -0,0 +1,2 @@\<close> for lines
  added to an empty text).\<close>

definition writtenStart :: "nat \<Rightarrow> nat \<Rightarrow> nat" where
  "writtenStart start lineCount = (if lineCount = 0 then start - 1 else start)"

text \<open>Modelled from the spec: the package \<open>diff\<close> is missing; the rows of one hunk: its header and its lines.\<close>

definition renderHunk :: "editHunk \<Rightarrow> string list" where
  "renderHunk h =
     renderHunkHeader
       (writtenStart (ehOldStart h) (length (oldSide (ehEdits h)))) (length (oldSide (ehEdits h)))
       (writtenStart (ehNewStart h) (length (newSide (ehEdits h)))) (length (newSide (ehEdits h)))
     # concat (map renderEdit (ehEdits h))"

text \<open>Modelled from the spec: the package \<open>diff\<close> is missing; \<open>diff.createTwoFilesPatch(oldFileName, newFileName,
  oldStr, newStr, oldHeader, newHeader, { context })\<close>, the specification's \<open>render\<close>: the
  two file rows carry the names they are given.\<close>

definition createTwoFilesPatch ::
  "string \<Rightarrow> string \<Rightarrow> string \<Rightarrow> string \<Rightarrow> string \<Rightarrow> string \<Rightarrow> nat \<Rightarrow> string" where
  "createTwoFilesPatch oldFileName newFileName oldStr newStr oldHeader newHeader contextLines =
     unlines
       ([''--- '' @ oldFileName @ [CHR 0x09] @ oldHeader,
         ''+++ '' @ newFileName @ [CHR 0x09] @ newHeader]
        @ concat (map renderHunk
            (hunksFrom contextLines 0 0 (editScript (textLines oldStr) (textLines newStr)))))"

subsection \<open>Parsing\<close>

text \<open>Modelled from the spec: the package \<open>diff\<close> is missing; \<open>parse\<close> "fails with a
  \<open>MalformedDiff\<close> condition only when a hunk header cannot be matched to the
  \<open>@@ -a,b +c,d @@\<close> grammar; unknown leading line markers inside a hunk are treated as
  context by default rather than rejected", and it is "tolerant of multiple file sections
  in one text blob". What the package returns for a file section is its two file names,
  when their lines are there, and its hunks.\<close>

datatype parseError = MalformedDiff

record parsedHunk =
  phOldStart :: nat
  phOldLines :: nat
  phNewStart :: nat
  phNewLines :: nat
  phLines :: "string list"

record parsedFile =
  oldFileName :: "string option"
  newFileName :: "string option"
  fileHunks :: "parsedHunk list"

text \<open>Modelled from the spec: the package \<open>diff\<close> is missing; the value of a decimal digit.\<close>

definition digitValue :: "char \<Rightarrow> nat" where
  "digitValue c = of_char c - of_char CHR ''0''"

text \<open>Modelled from the spec: the package \<open>diff\<close> is missing; a decimal number at the head of a text, and the text
  behind it.\<close>

definition readNat :: "string \<Rightarrow> (nat \<times> string) option" where
  "readNat s =
     (let ds = takeWhile isDigit s
      in if ds = [] then None
         else Some (foldl (\<lambda>n d. 10 * n + digitValue d) 0 ds, dropWhile isDigit s))"

text \<open>Modelled from the spec: the package \<open>diff\<close> is missing; a literal at the head of a text, and the text behind
  it.\<close>

definition expect :: "string \<Rightarrow> string \<Rightarrow> string option" where
  "expect lit s = (if startsWith lit s then Some (drop (length lit) s) else None)"

text \<open>Modelled from the spec: the package \<open>diff\<close> is missing; the grammar \<open>@@ -a,b +c,d @@\<close> of a hunk header.\<close>

definition parseHunkHeader :: "string \<Rightarrow> (nat \<times> nat \<times> nat \<times> nat) option" where
  "parseHunkHeader l =
     (case expect ''@@ -'' l of None \<Rightarrow> None | Some s1 \<Rightarrow>
      case readNat s1 of None \<Rightarrow> None | Some (a, s2) \<Rightarrow>
      case expect '','' s2 of None \<Rightarrow> None | Some s3 \<Rightarrow>
      case readNat s3 of None \<Rightarrow> None | Some (b, s4) \<Rightarrow>
      case expect '' +'' s4 of None \<Rightarrow> None | Some s5 \<Rightarrow>
      case readNat s5 of None \<Rightarrow> None | Some (c, s6) \<Rightarrow>
      case expect '','' s6 of None \<Rightarrow> None | Some s7 \<Rightarrow>
      case readNat s7 of None \<Rightarrow> None | Some (d, s8) \<Rightarrow>
      case expect '' @@'' s8 of None \<Rightarrow> None | Some s9 \<Rightarrow> Some (a, b, c, d))"

text \<open>Modelled from the spec: the package \<open>diff\<close> is missing; what a hunk line uses up of the two line counts of the
  header: a \<open>+\<close> line counts as a new line, a \<open>-\<close> line as an old line, and a line with
  any other marker as a context line, that is as both.\<close>

fun consume :: "lineTag \<Rightarrow> nat \<Rightarrow> nat \<Rightarrow> nat \<times> nat" where
  "consume Added oldLeft newLeft = (oldLeft, newLeft - 1)"
| "consume Removed oldLeft newLeft = (oldLeft - 1, newLeft)"
| "consume Context oldLeft newLeft = (oldLeft - 1, newLeft - 1)"

text \<open>Modelled from the spec: the package \<open>diff\<close> is missing; the lines of a hunk, as many as its header counts;
  "unknown leading line markers inside a hunk are treated as context".\<close>

fun readBody :: "nat \<Rightarrow> nat \<Rightarrow> string list \<Rightarrow> string list \<times> string list" where
  "readBody oldLeft newLeft [] = ([], [])"
| "readBody oldLeft newLeft (l # ls) =
     (if oldLeft = 0 \<and> newLeft = 0 then ([], l # ls)
      else
        (case consume (tagOf l) oldLeft newLeft of
           (oldLeft', newLeft') \<Rightarrow>
             (case readBody oldLeft' newLeft' ls of
                (body, rest) \<Rightarrow> (l # body, rest))))"

lemma readBody_shorter: "readBody oldLeft newLeft ls = (body, rest) \<Longrightarrow> length rest \<le> length ls"
proof (induction ls arbitrary: oldLeft newLeft body rest)
  case Nil
  then show ?case by simp
next
  case (Cons l ls)
  show ?case
  proof (cases "oldLeft = 0 \<and> newLeft = 0")
    case True
    with Cons.prems show ?thesis by simp
  next
    case False
    obtain o' n' where c: "consume (tagOf l) oldLeft newLeft = (o', n')"
      by (cases "consume (tagOf l) oldLeft newLeft")
    obtain b r where rec: "readBody o' n' ls = (b, r)" by (cases "readBody o' n' ls")
    from False c rec Cons.prems have "rest = r" by auto
    with Cons.IH [OF rec] show ?thesis by simp
  qed
qed

text \<open>Modelled from the spec: the package \<open>diff\<close> is missing; the hunks of a file section, up to the next file line,
  and the lines behind them. The only failure is a hunk header outside the grammar.
  A line that is neither a hunk header nor a file line is passed over.\<close>

function parseHunks :: "string list \<Rightarrow> parseError + (parsedHunk list \<times> string list)" where
  "parseHunks [] = Inr ([], [])"
| "parseHunks (l # ls) =
     (if startsWith ''--- '' l then Inr ([], l # ls)
      else if startsWith ''@@'' l then
        (case parseHunkHeader l of
           None \<Rightarrow> Inl MalformedDiff
         | Some (a, b, c, d) \<Rightarrow>
             (case readBody b d ls of
                (body, rest) \<Rightarrow>
                  (case parseHunks rest of
                     Inl e \<Rightarrow> Inl e
                   | Inr (hs, rest') \<Rightarrow>
                       Inr (\<lparr>phOldStart = a, phOldLines = b, phNewStart = c, phNewLines = d,
                             phLines = body\<rparr> # hs, rest'))))
      else parseHunks ls)"
  by pat_completeness auto
termination
proof (relation "measure length")
  fix l :: string and ls x2 and x y xa ya xb yb :: nat and xc and body rest :: "string list"
  assume "(body, rest) = readBody xb yb ls"
  then have "length rest \<le> length ls" by (metis readBody_shorter)
  then show "(rest, l # ls) \<in> measure length" by simp
qed simp_all

declare parseHunks.simps [simp del]

lemma parseHunks_shorter: "parseHunks ls = Inr (hs, rest) \<Longrightarrow> length rest \<le> length ls"
proof (induction ls arbitrary: hs rest rule: parseHunks.induct)
  case 1
  then show ?case by (simp add: parseHunks.simps)
next
  case (2 l ls)
  show ?case
  proof (cases "startsWith ''--- '' l")
    case True
    with "2.prems" show ?thesis by (simp add: parseHunks.simps)
  next
    case notFile: False
    show ?thesis
    proof (cases "startsWith ''@@'' l")
      case False
      with notFile "2.prems" "2.IH"(2) show ?thesis by (fastforce simp: parseHunks.simps)
    next
      case True
      from True notFile "2.prems" obtain a b c d where hdr: "parseHunkHeader l = Some (a, b, c, d)"
        by (auto simp: parseHunks.simps split: option.splits)
      obtain body mid where rb: "readBody b d ls = (body, mid)" by (cases "readBody b d ls")
      from True notFile "2.prems" hdr rb obtain hs' where rec: "parseHunks mid = Inr (hs', rest)"
        by (auto simp: parseHunks.simps split: sum.splits)
      from "2.IH"(1) [OF notFile True hdr refl refl refl rb [symmetric] rec]
      have "length rest \<le> length mid" .
      with readBody_shorter [OF rb] show ?thesis by simp
    qed
  qed
qed

text \<open>Modelled from the spec: the package \<open>diff\<close> is missing; the name on a file line: what stands between the
  marker and the first tab.\<close>

definition fileNameOf :: "string \<Rightarrow> string" where
  "fileNameOf l = takeWhile (\<lambda>c. c \<noteq> CHR 0x09) (drop 4 l)"

text \<open>Modelled from the spec: the package \<open>diff\<close> is missing; the file sections of a patch ("tolerant of multiple
  file sections"). A section starts at a \<open>---\<close> line; the \<open>+++\<close> line
  is expected next; lines before the first section are passed over.\<close>

function parseSections :: "string list \<Rightarrow> parseError + parsedFile list" where
  "parseSections [] = Inr []"
| "parseSections (l # ls) =
     (if startsWith ''--- '' l then
        (let newName = (case ls of m # ms \<Rightarrow> if startsWith ''+++ '' m then Some (fileNameOf m) else None
                        | [] \<Rightarrow> None);
             ls' = (if newName = None then ls else tl ls)
         in case parseHunks ls' of
              Inl e \<Rightarrow> Inl e
            | Inr (hs, rest) \<Rightarrow>
                (case parseSections rest of
                   Inl e \<Rightarrow> Inl e
                 | Inr files \<Rightarrow>
                     Inr (\<lparr>oldFileName = Some (fileNameOf l), newFileName = newName,
                           fileHunks = hs\<rparr> # files)))
      else parseSections ls)"
  by pat_completeness auto
termination
proof (relation "measure length")
  fix l :: string and ls ls' rest :: "string list" and newName :: "string option" and x2 hs
  assume "ls' = (if newName = None then ls else tl ls)" and "parseHunks ls' = Inr x2" and "(hs, rest) = x2"
  then have "length rest \<le> length ls'" and "length ls' \<le> length ls"
    by (auto dest: parseHunks_shorter)
  then show "(rest, l # ls) \<in> measure length" by simp
qed simp_all

declare parseSections.simps [simp del]

text \<open>Modelled from the spec: the package \<open>diff\<close> is missing; in the format of section 6 the row \<open>noNewline\<close>
  (any row that starts with a backslash) is not a line of either text: it says that the row
  before it has no line feed at its end. Before the hunks are read, every such row is
  joined to the row it belongs to, behind a line feed, which no row contains.\<close>

fun joinMarkers :: "string list \<Rightarrow> string list" where
  "joinMarkers (l # m # ls) =
     (if startsWith [CHR 0x5C] m then joinMarkers ((l @ CHR 0x0A # m) # ls)
      else l # joinMarkers (m # ls))"
| "joinMarkers ls = ls"

text \<open>Modelled from the spec: the package \<open>diff\<close> is missing; the rows of a hunk are given back as they stand in the
  patch, the marker rows separate again.\<close>

definition separateMarkers :: "string \<Rightarrow> string list" where
  "separateMarkers row = (if row = [] then [row] else splitLines row)"

text \<open>Modelled from the spec: the package \<open>diff\<close> is missing; a hunk's \<open>oldStart\<close> and \<open>newStart\<close> are "1-based line
  numbers" at which "replaying the tagged lines" starts, so the start written for a side
  without lines, which is the line before the hunk, is read as the line behind it.\<close>

definition readStart :: "nat \<Rightarrow> nat \<Rightarrow> nat" where
  "readStart written lineCount = (if lineCount = 0 then written + 1 else written)"

text \<open>Modelled from the spec: the package \<open>diff\<close> is missing; a hunk as it is returned.\<close>

definition finishHunk :: "parsedHunk \<Rightarrow> parsedHunk" where
  "finishHunk h =
     h\<lparr>phOldStart := readStart (phOldStart h) (phOldLines h),
       phNewStart := readStart (phNewStart h) (phNewLines h),
       phLines := concat (map separateMarkers (phLines h))\<rparr>"

text \<open>Modelled from the spec: the package \<open>diff\<close> is missing; a file section as it is returned.\<close>

definition finishFile :: "parsedFile \<Rightarrow> parsedFile" where
  "finishFile f = f\<lparr>fileHunks := map finishHunk (fileHunks f)\<rparr>"

text \<open>Modelled from the spec: the package \<open>diff\<close> is missing; \<open>diff.parsePatch(diffText)\<close>, the specification's
  \<open>parse\<close>.\<close>

definition parsePatch :: "string \<Rightarrow> parseError + parsedFile list" where
  "parsePatch uniDiff =
     (case parseSections (joinMarkers (splitLines uniDiff)) of
        Inl e \<Rightarrow> Inl e
      | Inr files \<Rightarrow> Inr (map finishFile files))"

subsection \<open>generateUnifiedDiff and parseDiff\<close>

text \<open>From the source (\<open>diffAnalyzer.ts\<close>): the names handed to the package are
  \<open>a/<filename>\<close> and \<open>b/<filename>\<close>, whatever the contents; the context is 5 lines. The
  labels \<open>oldRef\<close> and \<open>newRef\<close> default to \<open>base\<close> and \<open>branch\<close>.\<close>

definition generateUnifiedDiff :: "string \<Rightarrow> string \<Rightarrow> string \<Rightarrow> string \<Rightarrow> string \<Rightarrow> string" where
  "generateUnifiedDiff oldContent newContent filename oldRef newRef =
     createTwoFilesPatch (''a/'' @ filename) (''b/'' @ filename) oldContent newContent oldRef newRef 5"

text \<open>From the source: \<open>x ?? ''\<close> on a name that may be undefined.\<close>

definition orEmpty :: "string option \<Rightarrow> string" where
  "orEmpty x = (case x of None \<Rightarrow> [] | Some s \<Rightarrow> s)"

text \<open>From the source: the three fields that \<open>parseDiff\<close> copies from a parsed hunk.\<close>

definition toHunk :: "parsedHunk \<Rightarrow> Hunk" where
  "toHunk h = \<lparr>oldStart = int (phOldStart h), newStart = int (phNewStart h), lines = phLines h\<rparr>"

text \<open>From the source: the object pushed for one parsed file.\<close>

definition toFileDiff :: "string \<Rightarrow> parsedFile \<Rightarrow> FileDiff" where
  "toFileDiff diffText file =
     \<lparr>oldPath = orEmpty (oldFileName file),
      newPath = orEmpty (newFileName file),
      hunks = map toHunk (fileHunks file),
      isNew = (oldFileName file = Some ''/dev/null''),
      isDeleted = (newFileName file = Some ''/dev/null''),
      unifiedDiff = diffText\<rparr>"

text \<open>From the source: \<open>parseDiff\<close>; an exception of \<open>diff.parsePatch\<close> leaves it.\<close>

definition parseDiff :: "string \<Rightarrow> parseError + FileDiff list" where
  "parseDiff diffText =
     (case parsePatch diffText of
        Inl e \<Rightarrow> Inl e
      | Inr files \<Rightarrow> Inr (map (toFileDiff diffText) files))"

subsection \<open>Replaying hunks\<close>

text \<open>The hunk invariant of the specification's data model ("replaying the tagged lines
  against the old file starting at \<open>oldStart\<close> and against the new file starting at
  \<open>newStart\<close> reproduces both versions") as functions, to state the round trip with.
  First, what \<open>parsePatch\<close> is expected to return for a hunk of the engine.\<close>

definition parsedOf :: "editHunk \<Rightarrow> parsedHunk" where
  "parsedOf h =
     \<lparr>phOldStart = ehOldStart h, phOldLines = length (oldSide (ehEdits h)),
      phNewStart = ehNewStart h, phNewLines = length (newSide (ehEdits h)),
      phLines = concat (map renderEdit (ehEdits h))\<rparr>"

text \<open>The tagged line that a row of a hunk stands for, the row taken with the marker rows
  that follow it: its tag, its text behind the marker, and whether a line feed ends it,
  which is the case unless a marker row follows.\<close>

definition rowLine :: "string \<Rightarrow> lineTag \<times> textLine" where
  "rowLine row =
     (tagOf row, (takeWhile (\<lambda>c. c \<noteq> CHR 0x0A) (tl row), CHR 0x0A \<notin> set row))"

text \<open>The tagged lines of a hunk, read from its \<open>lines\<close>.\<close>

definition hunkLines :: "string list \<Rightarrow> (lineTag \<times> textLine) list" where
  "hunkLines rows = map rowLine (joinMarkers rows)"

text \<open>Replaying the lines of one hunk against the lines of a text at the hunk's position.
  \<open>gone\<close> is the tag of the lines that only the replayed text has (\<open>Removed\<close> when the
  old text is replayed, \<open>Added\<close> when the new text is). A context line and a line of the
  replayed text have to be the next line of that text, with or without its line feed as
  the hunk says; the result is the lines of the other text over the hunk's span, and what
  is left of the replayed text.\<close>

fun replayLines ::
  "lineTag \<Rightarrow> (lineTag \<times> textLine) list \<Rightarrow> textLine list \<Rightarrow> (textLine list \<times> textLine list) option" where
  "replayLines gone [] src = Some ([], src)"
| "replayLines gone ((tag, l) # ls) src =
     (if tag = Context \<or> tag = gone then
        (case src of
           [] \<Rightarrow> None
         | s # src' \<Rightarrow>
             if s = l then
               (case replayLines gone ls src' of
                  None \<Rightarrow> None
                | Some (out, rest) \<Rightarrow> Some (if tag = Context then s # out else out, rest))
             else None)
      else
        (case replayLines gone ls src of
           None \<Rightarrow> None
         | Some (out, rest) \<Rightarrow> Some (l # out, rest)))"

text \<open>Replaying all hunks: \<open>start\<close> picks the 1-based start line of a hunk in the replayed
  text, \<open>pos\<close> counts the lines of that text already passed. The lines between the hunks
  are the same in both texts.\<close>

fun replayHunks ::
  "lineTag \<Rightarrow> (Hunk \<Rightarrow> int) \<Rightarrow> Hunk list \<Rightarrow> nat \<Rightarrow> textLine list \<Rightarrow> textLine list option" where
  "replayHunks gone start [] pos src = Some src"
| "replayHunks gone start (h # hs) pos src =
     (let skip = start h - 1 - int pos
      in if skip < 0 \<or> int (length src) < skip then None
         else
           (case replayLines gone (hunkLines (lines h)) (drop (nat skip) src) of
              None \<Rightarrow> None
            | Some (out, rest) \<Rightarrow>
                (case replayHunks gone start hs (length src + pos - length rest) rest of
                   None \<Rightarrow> None
                 | Some out' \<Rightarrow> Some (take (nat skip) src @ out @ out'))))"

text \<open>The removed and context lines against the old text give the new text; the added and
  context lines against the new text give the old text.\<close>

definition replayOld :: "Hunk list \<Rightarrow> textLine list \<Rightarrow> textLine list option" where
  "replayOld hs oldLines = replayHunks Removed oldStart hs 0 oldLines"

definition replayNew :: "Hunk list \<Rightarrow> textLine list \<Rightarrow> textLine list option" where
  "replayNew hs newLines = replayHunks Added newStart hs 0 newLines"

text \<open>A line that starts like a hunk header and does not match the grammar.\<close>

definition badHeader :: "string \<Rightarrow> bool" where
  "badHeader l = (startsWith ''@@'' l \<and> parseHunkHeader l = None)"

text \<open>What the hunks are read from when a rendered patch is parsed: the rows of an edit
  and of a hunk with the marker rows joined, and the hunk as its header is read.\<close>

definition joinedEdit :: "edit \<Rightarrow> string" where
  "joinedEdit e =
     (marker e # fst (lineOf e)) @ (if snd (lineOf e) then [] else CHR 0x0A # noNewline)"

definition joinedHunk :: "editHunk \<Rightarrow> string list" where
  "joinedHunk h =
     renderHunkHeader
       (writtenStart (ehOldStart h) (length (oldSide (ehEdits h)))) (length (oldSide (ehEdits h)))
       (writtenStart (ehNewStart h) (length (newSide (ehEdits h)))) (length (newSide (ehEdits h)))
     # map joinedEdit (ehEdits h)"

definition readOf :: "editHunk \<Rightarrow> parsedHunk" where
  "readOf h =
     \<lparr>phOldStart = writtenStart (ehOldStart h) (length (oldSide (ehEdits h))),
      phOldLines = length (oldSide (ehEdits h)),
      phNewStart = writtenStart (ehNewStart h) (length (newSide (ehEdits h))),
      phNewLines = length (newSide (ehEdits h)),
      phLines = map joinedEdit (ehEdits h)\<rparr>"

text \<open>An edit whose line has no line feed inside.\<close>

definition cleanEdit :: "edit \<Rightarrow> bool" where
  "cleanEdit e = (CHR 0x0A \<notin> set (fst (lineOf e)))"

section \<open>Definition tracking (review/definitionTracker.ts)\<close>

subsection \<open>The editor's documents\<close>

text \<open>The editor's API is not among the sources; the three operations of a
  \<open>vscode.TextDocument\<close> that the tracker calls are modelled after the editor's behaviour.
  A document is its lines without their terminators, and the line ending that \<open>getText\<close>
  puts between them. \<open>lineAt\<close> throws on an index outside the document.\<close>

datatype EndOfLine = LF | CRLF

record TextDocument =
  docLines :: "string list"
  eol :: EndOfLine

datatype error = IllegalLine

definition eolText :: "EndOfLine \<Rightarrow> string" where
  "eolText e = (case e of LF \<Rightarrow> [CHR 0x0A] | CRLF \<Rightarrow> [CHR 0x0D, CHR 0x0A])"

definition lineCount :: "TextDocument \<Rightarrow> int" where
  "lineCount doc = int (length (docLines doc))"

definition lineAt :: "TextDocument \<Rightarrow> int \<Rightarrow> error + string" where
  "lineAt doc i = (if 0 \<le> i \<and> i < lineCount doc then Inr (docLines doc ! nat i) else Inl IllegalLine)"

text \<open>\<open>doc.getText(new vscode.Range(lo, 0, hi + 1, 0))\<close> for lines
  \<open>lo \<le> hi\<close> of the document: every line with its line ending; when \<open>hi\<close> is the
  final line the range is clamped to the end of the text, and the final line has no line
  ending.\<close>

definition getTextOfLines :: "TextDocument \<Rightarrow> int \<Rightarrow> int \<Rightarrow> string" where
  "getTextOfLines doc lo hi =
     (let ls = take (nat (hi + 1 - lo)) (drop (nat lo) (docLines doc))
      in if hi + 1 < lineCount doc
         then concat (map (\<lambda>l. l @ eolText (eol doc)) ls)
         else concat (map (\<lambda>l. l @ eolText (eol doc)) (butlast ls)) @ (if ls = [] then [] else last ls))"

subsection \<open>extractIdentifiers\<close>

text \<open>\<open>lineText.replace(/\/\/.*$/, '')\<close>: the text is cut at the first \<open>//\<close> that is
  followed by no line terminator.\<close>

fun stripLineComment :: "string \<Rightarrow> string" where
  "stripLineComment [] = []"
| "stripLineComment (c # cs) =
     (if c = CHR ''/'' \<and> startsWith ''/'' cs \<and> list_all (\<lambda>d. \<not> isLineTerminator d) (tl cs)
      then [] else c # stripLineComment cs)"

text \<open>The lazy \<open>.*?\*\/\<close> after an opening \<open>/*\<close>: the text behind the nearest \<open>*/\<close>
  that is reached without crossing a line terminator.\<close>

fun findClose :: "string \<Rightarrow> string option" where
  "findClose [] = None"
| "findClose (c # cs) =
     (if c = CHR ''*'' \<and> startsWith ''/'' cs then Some (tl cs)
      else if isLineTerminator c then None
      else findClose cs)"

lemma findClose_shorter: "findClose cs = Some r \<Longrightarrow> length r < length cs"
  by (induction cs) (auto split: if_splits)

text \<open>\<open>.replace(/\/\*.*?\*\//g, '')\<close>: every closed comment span is removed, from left
  to right.\<close>

function stripBlockComments :: "string \<Rightarrow> string" where
  "stripBlockComments [] = []"
| "stripBlockComments (c # cs) =
     (if c = CHR ''/'' \<and> startsWith ''*'' cs
      then (case findClose (tl cs) of
              Some rest \<Rightarrow> stripBlockComments rest
            | None \<Rightarrow> c # stripBlockComments cs)
      else c # stripBlockComments cs)"
  by pat_completeness auto
termination
proof (relation "measure length")
  fix c cs rest
  assume "c = CHR ''/'' \<and> startsWith ''*'' cs" and closed: "findClose (tl cs) = Some rest"
  from closed have "length rest < length (tl cs)" by (rule findClose_shorter)
  also have "\<dots> \<le> length cs" by simp
  finally show "(rest, c # cs) \<in> measure length" by simp
qed simp_all

text \<open>One attempt of
  \<open>\b([A-Z][a-zA-Z0-9_]*|[a-z_][a-zA-Z0-9_]{2,})\s*[\.(]\<close> at a word boundary: the
  longest run of word characters, which starts with a capital or else starts with a small
  letter or underscore and has three characters at least, then white space, then a dot or
  an opening parenthesis. The result is the name and the length of the whole match.\<close>

definition matchIdentifier :: "string \<Rightarrow> (string \<times> nat) option" where
  "matchIdentifier s =
     (let name = takeWhile isWordChar s;
          after = dropWhile isWordChar s;
          gap = takeWhile isSpace after;
          rest = dropWhile isSpace after
      in if name \<noteq> []
            \<and> (isUpper (hd name) \<or> (isLowerOrUnderscore (hd name) \<and> 3 \<le> length name))
            \<and> rest \<noteq> [] \<and> (hd rest = CHR ''.'' \<or> hd rest = CHR ''('')
         then Some (name, length name + length gap + 1)
         else None)"

text \<open>The \<open>regex.exec\<close> loop over the stripped text. \<open>col\<close> is the index of the first
  character of the remaining text, \<open>prevWord\<close> tells whether the character before it is a
  word character (then there is no word boundary here). After a match the search resumes
  behind it, and the character before that position is the dot or parenthesis.\<close>

function scanIdentifiers :: "nat \<Rightarrow> bool \<Rightarrow> string \<Rightarrow> (string \<times> nat) list" where
  "scanIdentifiers col prevWord [] = []"
| "scanIdentifiers col prevWord (c # cs) =
     (case (if prevWord then None else matchIdentifier (c # cs)) of
        Some (name, n) \<Rightarrow> (name, col) # scanIdentifiers (col + n) False (drop n (c # cs))
      | None \<Rightarrow> scanIdentifiers (col + 1) (isWordChar c) cs)"
  by pat_completeness auto
termination
proof (relation "measure (\<lambda>(col, prevWord, s). length s)")
  fix col :: nat and prevWord c cs x2 name n
  assume "(if prevWord then None else matchIdentifier (c # cs)) = Some x2" and "(name, n) = x2"
  then have "matchIdentifier (c # cs) = Some (name, n)" by (auto split: if_splits)
  then have "0 < n" by (auto simp: matchIdentifier_def Let_def split: if_splits)
  then show "((col + n, False, drop n (c # cs)), (col, prevWord, c # cs))
      \<in> measure (\<lambda>(col, prevWord, s). length s)" by simp
qed simp_all

definition extractIdentifiers :: "string \<Rightarrow> (string \<times> nat) list" where
  "extractIdentifiers lineText =
     (let stripped = stripBlockComments (stripLineComment lineText)
      in scanIdentifiers 0 False stripped)"

subsection \<open>extractDefinitionBlock\<close>

text \<open>The pieces of the declaration pattern
  \<open>^\s*(export\s+)?(async\s+)?function | ^\s*(export\s+)?class |
  ^\s*(public|private|protected|static|async)\s+\w+\s*\( |
  ^\s*(const|let|var)\s+\w+\s*=\s*(async\s+)?\(\<close>.
  Every keyword starts with a letter and every greedy run is followed by something that
  cannot start inside the run, so each piece has one way to match.\<close>

definition skipSpaces :: "string \<Rightarrow> string" where
  "skipSpaces s = dropWhile isSpace s"

text \<open>\<open>kw\s+\<close>: the text behind the keyword and its white space, if it is there.\<close>

definition keywordThenSpace :: "string \<Rightarrow> string \<Rightarrow> string option" where
  "keywordThenSpace kw s =
     (let r = drop (length kw) s
      in if startsWith kw s \<and> r \<noteq> [] \<and> isSpace (hd r) then Some (skipSpaces r) else None)"

text \<open>\<open>(kw\s+)?\<close>\<close>

definition optionalKeyword :: "string \<Rightarrow> string \<Rightarrow> string" where
  "optionalKeyword kw s = (case keywordThenSpace kw s of Some r \<Rightarrow> r | None \<Rightarrow> s)"

text \<open>\<open>\w+\s*\<close>\<close>

definition wordThenSpaces :: "string \<Rightarrow> string option" where
  "wordThenSpaces s =
     (if s \<noteq> [] \<and> isWordChar (hd s) then Some (skipSpaces (dropWhile isWordChar s)) else None)"

definition functionDeclaration :: "string \<Rightarrow> bool" where
  "functionDeclaration s = startsWith ''function'' (optionalKeyword ''async'' (optionalKeyword ''export'' s))"

definition classDeclaration :: "string \<Rightarrow> bool" where
  "classDeclaration s = startsWith ''class'' (optionalKeyword ''export'' s)"

definition methodDeclaration :: "string \<Rightarrow> bool" where
  "methodDeclaration s =
     list_ex (\<lambda>kw. case keywordThenSpace kw s of
                     None \<Rightarrow> False
                   | Some r \<Rightarrow> (case wordThenSpaces r of
                                  None \<Rightarrow> False
                                | Some r' \<Rightarrow> startsWith ''('' r'))
       [''public'', ''private'', ''protected'', ''static'', ''async'']"

definition assignedCallable :: "string \<Rightarrow> bool" where
  "assignedCallable s =
     list_ex (\<lambda>kw. case keywordThenSpace kw s of
                     None \<Rightarrow> False
                   | Some r \<Rightarrow> (case wordThenSpaces r of
                                  None \<Rightarrow> False
                                | Some r' \<Rightarrow> startsWith ''='' r'
                                     \<and> startsWith ''('' (optionalKeyword ''async'' (skipSpaces (tl r')))))
       [''const'', ''let'', ''var'']"

definition isDeclaration :: "string \<Rightarrow> bool" where
  "isDeclaration lineText =
     (let s = skipSpaces lineText
      in functionDeclaration s \<or> classDeclaration s \<or> methodDeclaration s \<or> assignedCallable s)"

text \<open>The upward loop \<open>for (i = startLineIndex; i >= Math.max(0, startLineIndex - 20); i--)\<close>:
  the index of the first line that looks like a declaration, if the loop breaks.\<close>

function scanUp :: "TextDocument \<Rightarrow> int \<Rightarrow> int \<Rightarrow> error + int option" where
  "scanUp doc lowest i =
     (if i \<ge> lowest then
        (case lineAt doc i of
           Inl e \<Rightarrow> Inl e
         | Inr lineText \<Rightarrow>
             if isDeclaration lineText then Inr (Some i) else scanUp doc lowest (i - 1))
      else Inr None)"
  by pat_completeness auto
termination
  by (relation "measure (\<lambda>(doc, lowest, i). nat (i - lowest + 1))") auto

declare scanUp.simps [simp del]

text \<open>The variables of the downward loop.\<close>

record scanState =
  braceDepth :: int
  foundOpenBrace :: bool
  charCount :: int
  blockEnd :: int

text \<open>\<open>for (const ch of lineText)\<close>: the two tests on one character.\<close>

fun braceStep :: "int \<times> bool \<Rightarrow> char \<Rightarrow> int \<times> bool" where
  "braceStep (depth, found) ch =
     (let (depth1, found1) = (if ch = CHR ''{'' then (depth + 1, True) else (depth, found))
      in if ch = CHR ''}'' then (depth1 - 1, found1) else (depth1, found1))"

text \<open>The downward loop \<open>for (i = blockStart; i < totalLines; i++)\<close>, with its two
  exits; when it runs off the end of the document \<open>blockEnd\<close> keeps its initial value.\<close>

function scanDown :: "TextDocument \<Rightarrow> int \<Rightarrow> int \<Rightarrow> scanState \<Rightarrow> error + scanState" where
  "scanDown doc maxChars i s =
     (if i < lineCount doc then
        (case lineAt doc i of
           Inl e \<Rightarrow> Inl e
         | Inr lineText \<Rightarrow>
             (let count = charCount s + int (length lineText) + 1;
                  (depth, found) = foldl braceStep (braceDepth s, foundOpenBrace s) lineText;
                  s' = s\<lparr>braceDepth := depth, foundOpenBrace := found, charCount := count\<rparr>
              in if found \<and> depth = 0 then Inr (s'\<lparr>blockEnd := i\<rparr>)
                 else if count > maxChars then Inr (s'\<lparr>blockEnd := i\<rparr>)
                 else scanDown doc maxChars (i + 1) s'))
      else Inr s)"
  by pat_completeness auto
termination
  by (relation "measure (\<lambda>(doc, maxChars, i, s). nat (lineCount doc - i))") auto

declare scanDown.simps [simp del]

text \<open>Both loops: the block start and the final loop variables.\<close>

definition locateBlock :: "TextDocument \<Rightarrow> int \<Rightarrow> int \<Rightarrow> error + (int \<times> scanState)" where
  "locateBlock doc startLineIndex maxChars =
     (case scanUp doc (max 0 (startLineIndex - 20)) startLineIndex of
        Inl e \<Rightarrow> Inl e
      | Inr found \<Rightarrow>
          (let blockStart = (case found of Some i \<Rightarrow> i | None \<Rightarrow> startLineIndex)
           in case scanDown doc maxChars blockStart
                     \<lparr>braceDepth = 0, foundOpenBrace = False, charCount = 0, blockEnd = blockStart\<rparr> of
                Inl e \<Rightarrow> Inl e
              | Inr s \<Rightarrow> Inr (blockStart, s)))"

text \<open>The result is \<open>(startLine, endLine, content)\<close>.\<close>

definition extractDefinitionBlock :: "TextDocument \<Rightarrow> int \<Rightarrow> int \<Rightarrow> error + (int \<times> int \<times> string)" where
  "extractDefinitionBlock doc startLineIndex maxChars =
     (case locateBlock doc startLineIndex maxChars of
        Inl e \<Rightarrow> Inl e
      | Inr (blockStart, s) \<Rightarrow>
          (let content = getTextOfLines doc blockStart (blockEnd s)
           in Inr (blockStart + 1, blockEnd s + 1, slice0 content maxChars)))"

subsection \<open>The traversal\<close>

text \<open>A file is known by the text of its URI. A definition location is a file and the
  zero-based line where its range starts (a \<open>LocationLink\<close> is taken after its
  normalisation to a \<open>Location\<close>).\<close>

type_synonym uri = string

record Location =
  locUri :: uri
  locLine :: nat

record DefinitionContext =
  symbolName :: string
  originFile :: string
  definitionFile :: string
  definitionContent :: string
  startLine :: int
  endLine :: int

text \<open>The editor as the traversal sees it: \<open>vscode.workspace.openTextDocument\<close>
  (\<open>None\<close> when it rejects), the command \<open>vscode.executeDefinitionProvider\<close> at a
  zero-based line and column (\<open>None\<close> when it throws, the empty list when it answers
  nothing), and \<open>vscode.workspace.asRelativePath\<close>.\<close>

record Env =
  openTextDocument :: "uri \<Rightarrow> TextDocument option"
  executeDefinitionProvider :: "uri \<Rightarrow> nat \<Rightarrow> nat \<Rightarrow> Location list option"
  asRelativePath :: "uri \<Rightarrow> string"

text \<open>What one run does to the outside and to its result, in order: a document is asked
  for, the loop over the target lines of a file is entered, a position is resolved, a
  record is appended for a resolved location. The trace is an observation of the run; the
  program does not read it.\<close>

datatype event = OpenDocument uri | ScanLines uri | ResolveAt uri nat nat | Recorded uri nat

text \<open>The two objects every call shares, \<open>visited\<close> and \<open>results\<close>, and the trace.\<close>

record gstate =
  visited :: "string set"
  results :: "DefinitionContext list"
  trace :: "event list"

text \<open>The three updates of the state: \<open>visited.add(key)\<close>, \<open>results.push(ctx)\<close>,
  and one more entry of the trace.\<close>

definition addVisited :: "string \<Rightarrow> gstate \<Rightarrow> gstate" where
  "addVisited key st = st\<lparr>visited := insert key (visited st)\<rparr>"

definition pushResult :: "DefinitionContext \<Rightarrow> gstate \<Rightarrow> gstate" where
  "pushResult ctx st = st\<lparr>results := results st @ [ctx]\<rparr>"

definition observe :: "event \<Rightarrow> gstate \<Rightarrow> gstate" where
  "observe ev st = st\<lparr>trace := trace st @ [ev]\<rparr>"

text \<open>A call returns or throws; what it did to the shared objects stays either way.\<close>

datatype completion = Returned | Thrown

text \<open>A \<open>for ... of\<close> loop whose body may throw; \<open>continue\<close> is a body that
  returns.\<close>

fun forEach :: "('a \<Rightarrow> 's \<Rightarrow> completion \<times> 's) \<Rightarrow> 'a list \<Rightarrow> 's \<Rightarrow> completion \<times> 's" where
  "forEach body [] s = (Returned, s)"
| "forEach body (x # xs) s =
     (case body x s of
        (Returned, s') \<Rightarrow> forEach body xs s'
      | (Thrown, s') \<Rightarrow> (Thrown, s'))"

text \<open>The keys kept in \<open>visited\<close> besides the URI of a scanned file: the template
  literals \<open>`${fileUri}:${lineNo}:${col}`\<close> of a probe and
  \<open>`${loc.uri}:${loc.range.start.line}`\<close> of a resolved location.\<close>

definition probeKey :: "uri \<Rightarrow> int \<Rightarrow> nat \<Rightarrow> string" where
  "probeKey fileUri lineNo col = fileUri @ '':'' @ showInt lineNo @ '':'' @ showInt (int col)"

definition definitionKey :: "uri \<Rightarrow> nat \<Rightarrow> string" where
  "definitionKey uri line = uri @ '':'' @ showInt (int line)"

text \<open>The body of \<open>for (const loc of locations)\<close>. \<open>recurse\<close> stands for the recursive
  call of \<open>gatherRecursive\<close> one level down; whatever the \<open>try\<close> block throws is caught
  and the loop continues.\<close>

definition processLocation ::
  "(uri \<Rightarrow> int list \<Rightarrow> gstate \<Rightarrow> completion \<times> gstate) \<Rightarrow> Env \<Rightarrow> uri \<Rightarrow> string \<Rightarrow> int
     \<Rightarrow> Location \<Rightarrow> gstate \<Rightarrow> completion \<times> gstate" where
  "processLocation recurse env fileUri name maxCharsPerFile loc st =
     (if locUri loc = fileUri then (Returned, st)
      else
        (let defKey = definitionKey (locUri loc) (locLine loc)
         in if defKey \<in> visited st then (Returned, st)
            else
              (let st1 = observe (OpenDocument (locUri loc)) (addVisited defKey st)
               in case openTextDocument env (locUri loc) of
                    None \<Rightarrow> (Returned, st1)
                  | Some defDoc \<Rightarrow>
                      (case extractDefinitionBlock defDoc (int (locLine loc)) maxCharsPerFile of
                         Inl e \<Rightarrow> (Returned, st1)
                       | Inr (startLine', endLine', content) \<Rightarrow>
                           (let ctx = \<lparr>symbolName = name,
                                       originFile = asRelativePath env fileUri,
                                       definitionFile = asRelativePath env (locUri loc),
                                       definitionContent = content,
                                       startLine = startLine',
                                       endLine = endLine'\<rparr>;
                                st2 = observe (Recorded (locUri loc) (locLine loc)) (pushResult ctx st1);
                                nextLines = [startLine', (startLine' + endLine') div 2]
                            in (Returned, snd (recurse (locUri loc) nextLines st2)))))))"

text \<open>The body of \<open>for (const { name, col } of identifiers)\<close>.\<close>

definition processIdentifier ::
  "(uri \<Rightarrow> int list \<Rightarrow> gstate \<Rightarrow> completion \<times> gstate) \<Rightarrow> Env \<Rightarrow> uri \<Rightarrow> int \<Rightarrow> int
     \<Rightarrow> string \<times> nat \<Rightarrow> gstate \<Rightarrow> completion \<times> gstate" where
  "processIdentifier recurse env fileUri lineNo maxCharsPerFile ident st =
     (case ident of (name, col) \<Rightarrow>
        (let key = probeKey fileUri lineNo col
         in if key \<in> visited st then (Returned, st)
            else
              (let line = nat (max (lineNo - 1) 0);
                   st1 = observe (ResolveAt fileUri line col) (addVisited key st)
               in case executeDefinitionProvider env fileUri line col of
                    None \<Rightarrow> (Returned, st1)
                  | Some locations \<Rightarrow>
                      if locations = [] then (Returned, st1)
                      else forEach (processLocation recurse env fileUri name maxCharsPerFile)
                             locations st1)))"

text \<open>The body of \<open>for (const lineNo of targetLines)\<close>; \<open>lineAt\<close> is outside every
  \<open>try\<close>, so its exception leaves \<open>gatherRecursive\<close>.\<close>

definition processLine ::
  "(uri \<Rightarrow> int list \<Rightarrow> gstate \<Rightarrow> completion \<times> gstate) \<Rightarrow> Env \<Rightarrow> uri \<Rightarrow> TextDocument \<Rightarrow> int
     \<Rightarrow> int \<Rightarrow> gstate \<Rightarrow> completion \<times> gstate" where
  "processLine recurse env fileUri document maxCharsPerFile lineNo st =
     (case lineAt document (min (lineNo - 1) (lineCount document - 1)) of
        Inl e \<Rightarrow> (Thrown, st)
      | Inr lineText \<Rightarrow>
          forEach (processIdentifier recurse env fileUri lineNo maxCharsPerFile)
            (extractIdentifiers lineText) st)"

text \<open>\<open>gatherRecursive\<close>: the depth gate, the document, the visited-file check that
  comes after it, and the loop over the target lines. The depths and the budget are
  JavaScript numbers that hold whole numbers; they are modelled as integers, so that a
  negative budget is an input as it is in the source.\<close>

function gatherRecursive ::
  "Env \<Rightarrow> uri \<Rightarrow> int list \<Rightarrow> int \<Rightarrow> int \<Rightarrow> gstate \<Rightarrow> int \<Rightarrow> completion \<times> gstate" where
  "gatherRecursive env fileUri targetLines maxDepth currentDepth st maxCharsPerFile =
     (if currentDepth \<ge> maxDepth then (Returned, st)
      else
        (let st1 = observe (OpenDocument fileUri) st
         in case openTextDocument env fileUri of
              None \<Rightarrow> (Returned, st1)
            | Some document \<Rightarrow>
                if fileUri \<in> visited st1 then (Returned, st1)
                else
                  forEach
                    (processLine
                       (\<lambda>uri nextLines s.
                          gatherRecursive env uri nextLines maxDepth (currentDepth + 1) s maxCharsPerFile)
                       env fileUri document maxCharsPerFile)
                    targetLines
                    (observe (ScanLines fileUri) (addVisited fileUri st1))))"
  by pat_completeness auto
termination
  by (relation "measure (\<lambda>(env, fileUri, targetLines, maxDepth, currentDepth, st, maxCharsPerFile).
                   nat (maxDepth - currentDepth))") auto

declare gatherRecursive.simps [simp del]

text \<open>The exported function: fresh shared objects, one call at depth 0, and the results;
  an exception that leaves the call rejects the promise.\<close>

definition emptyState :: gstate where
  "emptyState = \<lparr>visited = {}, results = [], trace = []\<rparr>"

definition gatherDefinitionsForChangedLines ::
  "Env \<Rightarrow> uri \<Rightarrow> int list \<Rightarrow> int \<Rightarrow> int \<Rightarrow> error + DefinitionContext list" where
  "gatherDefinitionsForChangedLines env fileUri changedLines maxDepth maxCharsPerFile =
     (case gatherRecursive env fileUri changedLines maxDepth 0 emptyState maxCharsPerFile of
        (Returned, st) \<Rightarrow> Inr (results st)
      | (Thrown, st) \<Rightarrow> Inl IllegalLine)"

subsection \<open>Invariants of the traversal\<close>

text \<open>What an invariant of the traversal has to survive: a file being marked and its
  scan begun, a probe being marked, and a location being marked with or without a record
  for it.\<close>

definition scanStable :: "(gstate \<Rightarrow> bool) \<Rightarrow> bool" where
  "scanStable P = (\<forall>(s::gstate) u. P s \<longrightarrow> u \<notin> visited s \<longrightarrow> P (observe (ScanLines u) (addVisited u s)))"

definition probeStable :: "(gstate \<Rightarrow> bool) \<Rightarrow> bool" where
  "probeStable P = (\<forall>(s::gstate) k u l c. P s \<longrightarrow> k \<notin> visited s \<longrightarrow> P (observe (ResolveAt u l c) (addVisited k s)))"

definition openStable :: "(gstate \<Rightarrow> bool) \<Rightarrow> bool" where
  "openStable P = (\<forall>(s::gstate) u. P s \<longrightarrow> P (observe (OpenDocument u) s))"

definition visitStable :: "(gstate \<Rightarrow> bool) \<Rightarrow> bool" where
  "visitStable P = (\<forall>(s::gstate) k. P s \<longrightarrow> k \<notin> visited s \<longrightarrow> P (addVisited k s))"

definition recordStable :: "Env \<Rightarrow> int \<Rightarrow> (gstate \<Rightarrow> bool) \<Rightarrow> bool" where
  "recordStable env mc P =
     (\<forall>(s::gstate) name fileUri (loc::Location) defDoc sl el content.
        P s \<longrightarrow> definitionKey (locUri loc) (locLine loc) \<notin> visited s \<longrightarrow>
        openTextDocument env (locUri loc) = Some defDoc \<longrightarrow>
        extractDefinitionBlock defDoc (int (locLine loc)) mc = Inr (sl, el, content) \<longrightarrow>
        P (observe (Recorded (locUri loc) (locLine loc))
             (pushResult \<lparr>symbolName = name, originFile = asRelativePath env fileUri,
                           definitionFile = asRelativePath env (locUri loc),
                           definitionContent = content, startLine = sl, endLine = el\<rparr>
                (observe (OpenDocument (locUri loc))
                   (addVisited (definitionKey (locUri loc) (locLine loc)) s)))))"

text \<open>What claim C10 asks of a record, for a given budget.\<close>

definition wellFormedContext :: "int \<Rightarrow> DefinitionContext \<Rightarrow> bool" where
  "wellFormedContext budget ctx =
     (1 \<le> startLine ctx \<and> startLine ctx \<le> endLine ctx
      \<and> int (length (definitionContent ctx)) \<le> budget)"

text \<open>The resolved locations for which a record was appended, in order.\<close>

fun recordedLocations :: "event list \<Rightarrow> (uri \<times> nat) list" where
  "recordedLocations [] = []"
| "recordedLocations (Recorded u l # es) = (u, l) # recordedLocations es"
| "recordedLocations (OpenDocument u # es) = recordedLocations es"
| "recordedLocations (ScanLines u # es) = recordedLocations es"
| "recordedLocations (ResolveAt u l c # es) = recordedLocations es"

text \<open>The invariant behind the deduplication: the keys of the recorded locations are
  pairwise different and all in \<open>visited\<close>, and the records stand in the result list in
  the order of the trace.\<close>

definition recordedOnce :: "Env \<Rightarrow> gstate \<Rightarrow> bool" where
  "recordedOnce env st =
     (distinct (map (\<lambda>(u, l). definitionKey u l) (recordedLocations (trace st)))
      \<and> (\<lambda>(u, l). definitionKey u l) ` set (recordedLocations (trace st)) \<subseteq> visited st
      \<and> map definitionFile (results st) = map (\<lambda>(u, l). asRelativePath env u) (recordedLocations (trace st)))"

text \<open>The files whose target lines were scanned, in order.\<close>

fun scannedFiles :: "event list \<Rightarrow> uri list" where
  "scannedFiles [] = []"
| "scannedFiles (ScanLines u # es) = u # scannedFiles es"
| "scannedFiles (OpenDocument u # es) = scannedFiles es"
| "scannedFiles (ResolveAt u l c # es) = scannedFiles es"
| "scannedFiles (Recorded u l # es) = scannedFiles es"

text \<open>The invariant behind the visited-file check: no file was scanned twice, and every
  scanned file is in \<open>visited\<close>.\<close>

definition scannedOnce :: "gstate \<Rightarrow> bool" where
  "scannedOnce st =
     (distinct (scannedFiles (trace st)) \<and> set (scannedFiles (trace st)) \<subseteq> visited st)"

subsection \<open>Sample workspaces\<close>

text \<open>Two files that refer to each other: line 2 of \<open>X\<close> calls \<open>foo\<close>, defined in \<open>Y\<close>;
  the block of \<open>foo\<close> calls \<open>bar\<close> on its middle line, defined in \<open>X\<close>. The resolver
  answers at a name's own declaration with that declaration.\<close>

definition docX :: TextDocument where
  "docX = \<lparr>docLines = [''function bar() {'', ''  foo();'', ''}''], eol = LF\<rparr>"

definition docY :: TextDocument where
  "docY = \<lparr>docLines = [''function foo() {'', ''  bar();'', ''}''], eol = LF\<rparr>"

definition cycleEnv :: Env where
  "cycleEnv =
     \<lparr>openTextDocument =
        (\<lambda>u. if u = ''X'' then Some docX else if u = ''Y'' then Some docY else None),
      executeDefinitionProvider =
        (\<lambda>u l c. if u = ''X'' \<and> l = 1 \<and> c = 2 then Some [\<lparr>locUri = ''Y'', locLine = 0\<rparr>]
                 else if u = ''Y'' \<and> l = 1 \<and> c = 2 then Some [\<lparr>locUri = ''X'', locLine = 0\<rparr>]
                 else if u = ''Y'' \<and> l = 0 \<and> c = 9 then Some [\<lparr>locUri = ''Y'', locLine = 0\<rparr>]
                 else if u = ''X'' \<and> l = 0 \<and> c = 9 then Some [\<lparr>locUri = ''X'', locLine = 0\<rparr>]
                 else Some []),
      asRelativePath = (\<lambda>u. u)\<rparr>"

text \<open>A caller of two methods of one class: both methods are declared without a modifier,
  so the upward scan from either of them stops at the \<open>class\<close> line.\<close>

definition docCaller :: TextDocument where
  "docCaller = \<lparr>docLines = [''alpha();'', ''beta();''], eol = LF\<rparr>"

definition docClass :: TextDocument where
  "docClass = \<lparr>docLines = [''class K {'', ''  alpha() { }'', ''  beta() { }'', ''}''], eol = LF\<rparr>"

definition classEnv :: Env where
  "classEnv =
     \<lparr>openTextDocument =
        (\<lambda>u. if u = ''C'' then Some docCaller else if u = ''K'' then Some docClass else None),
      executeDefinitionProvider =
        (\<lambda>u l c. if u = ''C'' \<and> l = 0 \<and> c = 0 then Some [\<lparr>locUri = ''K'', locLine = 1\<rparr>]
                 else if u = ''C'' \<and> l = 1 \<and> c = 0 then Some [\<lparr>locUri = ''K'', locLine = 2\<rparr>]
                 else Some []),
      asRelativePath = (\<lambda>u. u)\<rparr>"

text \<open>The two records of the mutual reference.\<close>

definition ctxFoo :: DefinitionContext where
  "ctxFoo = \<lparr>symbolName = ''foo'', originFile = ''X'', definitionFile = ''Y'',
     definitionContent = ''function foo() {'' @ [CHR 0x0A] @ ''  bar();'' @ [CHR 0x0A] @ ''}'',
     startLine = 1, endLine = 3\<rparr>"

definition ctxBar :: DefinitionContext where
  "ctxBar = \<lparr>symbolName = ''bar'', originFile = ''Y'', definitionFile = ''X'',
     definitionContent = ''function bar() {'' @ [CHR 0x0A] @ ''  foo();'' @ [CHR 0x0A] @ ''}'',
     startLine = 1, endLine = 3\<rparr>"


text \<open>A caller that names one function on two lines: both lines resolve to the same
  location, the method \<open>alpha\<close> of the class above.\<close>

definition docTwice :: TextDocument where
  "docTwice = \<lparr>docLines = [''alpha();'', ''alpha();''], eol = LF\<rparr>"

definition sharedEnv :: Env where
  "sharedEnv =
     \<lparr>openTextDocument =
        (\<lambda>u. if u = ''C'' then Some docTwice else if u = ''K'' then Some docClass else None),
      executeDefinitionProvider =
        (\<lambda>u l c. if u = ''C'' \<and> (l = 0 \<or> l = 1) \<and> c = 0 then Some [\<lparr>locUri = ''K'', locLine = 1\<rparr>]
                 else Some []),
      asRelativePath = (\<lambda>u. u)\<rparr>"

text \<open>A document with Windows line endings whose second line starts a block of four
  lines, and a file \<open>M\<close> that calls the function of that block.\<close>

definition docBlock :: TextDocument where
  "docBlock = \<lparr>docLines = [''// helper'', ''function foo() {'', ''  bar();'', ''  baz();'', ''}''],
     eol = CRLF\<rparr>"

definition docMain :: TextDocument where
  "docMain = \<lparr>docLines = [''foo();''], eol = LF\<rparr>"

definition blockEnv :: Env where
  "blockEnv =
     \<lparr>openTextDocument =
        (\<lambda>u. if u = ''M'' then Some docMain else if u = ''D'' then Some docBlock else None),
      executeDefinitionProvider =
        (\<lambda>u l c. if u = ''M'' \<and> l = 0 \<and> c = 0 then Some [\<lparr>locUri = ''D'', locLine = 1\<rparr>]
                 else Some []),
      asRelativePath = (\<lambda>u. u)\<rparr>"

text \<open>The record for the class block, found from \<open>alpha\<close> in the file \<open>C\<close>.\<close>

definition ctxAlpha :: DefinitionContext where
  "ctxAlpha = \<lparr>symbolName = ''alpha'', originFile = ''C'', definitionFile = ''K'',
     definitionContent = ''class K {'' @ [CHR 0x0A] @ ''  alpha() { }'' @ [CHR 0x0A]
       @ ''  beta() { }'' @ [CHR 0x0A] @ ''}'',
     startLine = 1, endLine = 4\<rparr>"
section \<open>Properties of the change-set extractor\<close>

lemma foldl_lineStep:
  "foldl lineStep (acc, c) ls =
     (acc @ emitFrom c (map tagOf ls),
      c + int (length (filter (\<lambda>t. t \<noteq> Removed) (map tagOf ls))))"
  by (induction ls arbitrary: acc c) (simp_all add: tagOf_def)

lemma hunkStep_append: "hunkStep acc h = acc @ hunkChangedLines h"
  by (simp add: hunkStep_def hunkChangedLines_def foldl_lineStep)

lemma foldl_hunkStep: "foldl hunkStep acc hs = acc @ concat (map hunkChangedLines hs)"
  by (induction hs arbitrary: acc) (simp_all add: hunkStep_append)

text \<open>Claim C5. \<open>getChangedLineNumbers\<close> walks every hunk on its own with a cursor that
  starts at the hunk's \<open>newStart\<close>, emits the cursor and advances it on an added line,
  advances it on a context line, leaves it alone on a removed line, and concatenates the
  hunks' results in hunk order; with no hunks the result is empty.\<close>

theorem getChangedLineNumbers_walk:
  "getChangedLineNumbers fd = changedLinesSpec fd
   \<and> getChangedLineNumbers (fd\<lparr>hunks := []\<rparr>) = []"
  by (simp add: getChangedLineNumbers_def foldl_hunkStep changedLinesSpec_def)


lemma emitFrom_bounds:
  "x \<in> set (emitFrom c ts) \<Longrightarrow> c \<le> x \<and> x < c + int (length (filter (\<lambda>t. t \<noteq> Removed) ts))"
proof (induction c ts rule: emitFrom.induct)
  case (2 cursor ts)
  then show ?case by fastforce
next
  case (3 cursor ts)
  then show ?case by fastforce
qed simp_all

lemma emitFrom_increasing: "sorted_wrt (<) (emitFrom c ts)"
proof (induction c ts rule: emitFrom.induct)
  case (2 cursor ts)
  then show ?case using emitFrom_bounds [of _ "cursor + 1" ts] by fastforce
qed simp_all

lemma hunkChangedLines_bounds:
  "x \<in> set (hunkChangedLines h) \<Longrightarrow> newStart h \<le> x \<and> x < newStart h + newSpan h"
  unfolding hunkChangedLines_def newSpan_def by (rule emitFrom_bounds)

lemma newSpan_nonneg: "0 \<le> newSpan h"
  by (simp add: newSpan_def)

lemma ordered_lower_bound:
  "hunksOrdered (h # hs) \<Longrightarrow> x \<in> set (concat (map hunkChangedLines hs)) \<Longrightarrow> newStart h + newSpan h \<le> x"
proof (induction hs arbitrary: h)
  case Nil
  then show ?case by simp
next
  case (Cons g gs)
  from Cons.prems(1) have le: "newStart h + newSpan h \<le> newStart g" and ord: "hunksOrdered (g # gs)"
    by simp_all
  from Cons.prems(2) consider "x \<in> set (hunkChangedLines g)" | "x \<in> set (concat (map hunkChangedLines gs))"
    by auto
  then show ?case
  proof cases
    case 1
    with hunkChangedLines_bounds [of x g] le show ?thesis by linarith
  next
    case 2
    with Cons.IH [OF ord] le newSpan_nonneg [of g] show ?thesis by fastforce
  qed
qed

lemma ordered_increasing:
  "hunksOrdered hs \<Longrightarrow> sorted_wrt (<) (concat (map hunkChangedLines hs))"
proof (induction hs)
  case Nil
  then show ?case by simp
next
  case (Cons h hs)
  have tl: "hunksOrdered hs" using Cons.prems by (cases hs) simp_all
  have "\<forall>x\<in>set (hunkChangedLines h). \<forall>y\<in>set (concat (map hunkChangedLines hs)). x < y"
    using hunkChangedLines_bounds [of _ h] ordered_lower_bound [OF Cons.prems] by fastforce
  then show ?case
    using Cons.IH [OF tl] emitFrom_increasing [of "newStart h" "map tagOf (lines h)"]
    by (simp add: sorted_wrt_append hunkChangedLines_def)
qed

text \<open>Claim C9, as stated: the result of \<open>getChangedLineNumbers\<close> is strictly increasing
  for every \<open>FileDiff\<close>. It fails when the hunks are not listed in new-file order: each
  hunk restarts the cursor at its own \<open>newStart\<close>.\<close>

theorem getChangedLineNumbers_not_increasing:
  "getChangedLineNumbers unorderedDiff = [5, 1]
   \<and> \<not> sorted_wrt (<) (getChangedLineNumbers unorderedDiff)"
  by (simp add: getChangedLineNumbers_def unorderedDiff_def hunkStep_def startsWith_def)

text \<open>Claim C9, amended: when every hunk starts at or after the end of the new-file span
  of the hunk before it (the hunks are in new-file order and do not overlap), the result of
  \<open>getChangedLineNumbers\<close> is strictly increasing.\<close>

theorem getChangedLineNumbers_increasing:
  "hunksOrdered (hunks fd) \<Longrightarrow> sorted_wrt (<) (getChangedLineNumbers fd)"
  by (simp add: getChangedLineNumbers_def foldl_hunkStep ordered_increasing)

theorem getChangedLineNumbers_increasing_witness:
  "hunksOrdered (hunks orderedDiff) \<and> getChangedLineNumbers orderedDiff = [2, 3, 10]
   \<and> sorted_wrt (<) (getChangedLineNumbers orderedDiff)"
proof -
  have h: "hunksOrdered (hunks orderedDiff)"
    by (simp add: orderedDiff_def newSpan_def tagOf_def startsWith_def)
  have v: "getChangedLineNumbers orderedDiff = [2, 3, 10]"
    by (simp add: getChangedLineNumbers_def orderedDiff_def hunkStep_def startsWith_def)
  from h v getChangedLineNumbers_increasing [OF h] show ?thesis by simp
qed

section \<open>Properties of the diff engine\<close>

subsection \<open>Lines\<close>

lemma textLines_no_newline: "(l, ended) \<in> set (textLines s) \<Longrightarrow> CHR 0x0A \<notin> set l"
proof (induction s arbitrary: l ended)
  case Nil
  then show ?case by simp
next
  case (Cons c cs)
  show ?case
  proof (cases "c = CHR 0x0A")
    case True
    with Cons show ?thesis by auto
  next
    case False
    show ?thesis
    proof (cases "textLines cs")
      case Nil
      with False Cons.prems show ?thesis by simp
    next
      case (Cons p ps)
      obtain m e where p: "p = (m, e)" by (cases p)
      with Cons False Cons.prems have "(l = c # m \<and> ended = e) \<or> (l, ended) \<in> set ps" by simp
      with Cons.IH [of m e] Cons.IH [of l ended] Cons p False show ?thesis by auto
    qed
  qed
qed

lemma textLines_line:
  "CHR 0x0A \<notin> set l \<Longrightarrow> textLines (l @ CHR 0x0A # s) = (l, True) # textLines s"
  by (induction l) auto

lemma textLines_plain:
  "row \<noteq> [] \<Longrightarrow> CHR 0x0A \<notin> set row \<Longrightarrow> textLines row = [(row, False)]"
proof (induction row)
  case Nil
  then show ?case by simp
next
  case (Cons c row)
  then show ?case by (cases "row = []") auto
qed

lemma splitLines_unlines:
  "\<forall>l\<in>set ls. CHR 0x0A \<notin> set l \<Longrightarrow> splitLines (unlines ls) = ls"
  by (induction ls) (simp_all add: unlines_def splitLines_def textLines_line)

lemma joinText_textLines: "joinText (textLines s) = s"
proof (induction s)
  case Nil
  then show ?case by (simp add: joinText_def)
next
  case (Cons c cs)
  then show ?case by (cases "textLines cs") (auto simp: joinText_def)
qed


lemma splitLines_plain: "row \<noteq> [] \<Longrightarrow> CHR 0x0A \<notin> set row \<Longrightarrow> splitLines row = [row]"
  by (simp add: splitLines_def textLines_plain)

subsection \<open>Marker rows\<close>

lemma noNewline_row: "startsWith [CHR 0x5C] noNewline" "CHR 0x0A \<notin> set noNewline" "noNewline \<noteq> []"
  by (simp_all add: noNewline_def startsWith_def)

lemma marker_chars:
  "marker e \<noteq> CHR 0x5C" "marker e \<noteq> CHR 0x0A" "CHR 0x0A \<noteq> marker e"
  by (cases e; simp)+

lemma joinMarkers_plain:
  "rest = [] \<or> \<not> startsWith [CHR 0x5C] (hd rest) \<Longrightarrow> joinMarkers (x # rest) = x # joinMarkers rest"
  by (cases rest) auto

lemma edit_rows_head:
  "rest = [] \<or> \<not> startsWith [CHR 0x5C] (hd rest)
   \<Longrightarrow> concat (map renderEdit es) @ rest = [] \<or> \<not> startsWith [CHR 0x5C] (hd (concat (map renderEdit es) @ rest))"
  by (cases es) (simp_all add: renderEdit_def startsWith_def marker_chars)

lemma joinMarkers_edits:
  "rest = [] \<or> \<not> startsWith [CHR 0x5C] (hd rest)
   \<Longrightarrow> joinMarkers (concat (map renderEdit es) @ rest) = map joinedEdit es @ joinMarkers rest"
proof (induction es)
  case Nil
  then show ?case by simp
next
  case (Cons e es)
  let ?R = "concat (map renderEdit es) @ rest"
  have head: "?R = [] \<or> \<not> startsWith [CHR 0x5C] (hd ?R)"
    using Cons.prems by (rule edit_rows_head)
  show ?case
  proof (cases "snd (lineOf e)")
    case True
    then have "joinMarkers (concat (map renderEdit (e # es)) @ rest)
        = joinMarkers ((marker e # fst (lineOf e)) # ?R)" by (simp add: renderEdit_def)
    also have "\<dots> = (marker e # fst (lineOf e)) # joinMarkers ?R"
      using head by (rule joinMarkers_plain)
    finally show ?thesis using True Cons.IH [OF Cons.prems] by (simp add: joinedEdit_def)
  next
    case False
    then have "joinMarkers (concat (map renderEdit (e # es)) @ rest)
        = joinMarkers ((marker e # fst (lineOf e)) # noNewline # ?R)" by (simp add: renderEdit_def)
    also have "\<dots> = joinMarkers (((marker e # fst (lineOf e)) @ CHR 0x0A # noNewline) # ?R)"
      by (simp add: noNewline_row)
    also have "\<dots> = ((marker e # fst (lineOf e)) @ CHR 0x0A # noNewline) # joinMarkers ?R"
      using head by (rule joinMarkers_plain)
    finally show ?thesis using False Cons.IH [OF Cons.prems] by (simp add: joinedEdit_def)
  qed
qed

lemma header_marks:
  "\<not> startsWith ''--- '' (renderHunkHeader a b c d)" "startsWith ''@@'' (renderHunkHeader a b c d)"
  "\<not> startsWith [CHR 0x5C] (renderHunkHeader a b c d)"
  by (simp_all add: renderHunkHeader_def startsWith_def)

lemma hunk_rows_head:
  "concat (map renderHunk hs) = [] \<or> \<not> startsWith [CHR 0x5C] (hd (concat (map renderHunk hs)))"
  by (cases hs) (simp_all add: renderHunk_def header_marks)

lemma joinMarkers_hunks: "joinMarkers (concat (map renderHunk hs)) = concat (map joinedHunk hs)"
proof (induction hs)
  case Nil
  then show ?case by simp
next
  case (Cons h hs)
  let ?header = "renderHunkHeader
       (writtenStart (ehOldStart h) (length (oldSide (ehEdits h)))) (length (oldSide (ehEdits h)))
       (writtenStart (ehNewStart h) (length (newSide (ehEdits h)))) (length (newSide (ehEdits h)))"
  let ?R = "concat (map renderHunk hs)"
  have "joinMarkers (concat (map renderHunk (h # hs)))
      = joinMarkers (?header # (concat (map renderEdit (ehEdits h)) @ ?R))"
    by (simp add: renderHunk_def)
  also have "\<dots> = ?header # joinMarkers (concat (map renderEdit (ehEdits h)) @ ?R)"
    by (rule joinMarkers_plain) (rule edit_rows_head, rule hunk_rows_head)
  also have "joinMarkers (concat (map renderEdit (ehEdits h)) @ ?R)
      = map joinedEdit (ehEdits h) @ joinMarkers ?R"
    by (rule joinMarkers_edits) (rule hunk_rows_head)
  finally show ?case using Cons.IH by (simp add: joinedHunk_def)
qed

lemma separateMarkers_joined: "cleanEdit e \<Longrightarrow> separateMarkers (joinedEdit e) = renderEdit e"
proof (cases "snd (lineOf e)")
  case True
  assume "cleanEdit e"
  then have "CHR 0x0A \<notin> set (marker e # fst (lineOf e))" by (simp add: cleanEdit_def marker_chars)
  then have "splitLines (marker e # fst (lineOf e)) = [marker e # fst (lineOf e)]"
    by (intro splitLines_plain) simp_all
  with True show ?thesis by (simp add: separateMarkers_def joinedEdit_def renderEdit_def)
next
  case False
  assume "cleanEdit e"
  then have c: "CHR 0x0A \<notin> set (marker e # fst (lineOf e))" by (simp add: cleanEdit_def marker_chars)
  have "textLines ((marker e # fst (lineOf e)) @ CHR 0x0A # noNewline)
      = (marker e # fst (lineOf e), True) # textLines noNewline"
    using c by (rule textLines_line)
  also have "textLines noNewline = [(noNewline, False)]"
    by (rule textLines_plain) (simp_all add: noNewline_row)
  finally show ?thesis using False
    by (simp add: separateMarkers_def joinedEdit_def renderEdit_def splitLines_def)
qed

lemma takeWhile_until: "x \<notin> set xs \<Longrightarrow> takeWhile (\<lambda>c. c \<noteq> x) (xs @ x # ys) = xs"
  by (induction xs) auto

lemma takeWhile_stop: "\<not> P x \<Longrightarrow> takeWhile P (xs @ x # ys) = takeWhile P xs"
  by (induction xs) auto

lemma takeWhile_all: "x \<notin> set xs \<Longrightarrow> takeWhile (\<lambda>c. c \<noteq> x) xs = xs"
  by (induction xs) auto

lemma tagOf_joined:
  "tagOf (joinedEdit (Keep l)) = Context" "tagOf (joinedEdit (Remove l)) = Removed"
  "tagOf (joinedEdit (Insert l)) = Added"
  by (simp_all add: tagOf_def startsWith_def joinedEdit_def)

lemma rowLine_joined:
  assumes "cleanEdit e"
  shows "rowLine (joinedEdit e) = (tagOf (joinedEdit e), lineOf e)"
proof -
  from assms have c: "CHR 0x0A \<notin> set (fst (lineOf e))" by (simp add: cleanEdit_def)
  show ?thesis
  proof (cases "snd (lineOf e)")
    case True
    with c show ?thesis
      by (simp add: rowLine_def joinedEdit_def takeWhile_all marker_chars prod_eq_iff)
  next
    case False
    with c show ?thesis
      by (simp add: rowLine_def joinedEdit_def takeWhile_until prod_eq_iff)
  qed
qed

subsection \<open>Numbers\<close>

lemma below_ten:
  "(k::nat) < 10 \<Longrightarrow> k = 0 \<or> k = 1 \<or> k = 2 \<or> k = 3 \<or> k = 4 \<or> k = 5 \<or> k = 6 \<or> k = 7 \<or> k = 8 \<or> k = 9"
  by arith

lemma digitChar_digit: "isDigit (digitChar d)"
proof -
  have "d mod 10 < 10" by simp
  from below_ten [OF this] show ?thesis by (auto simp: digitChar_def isDigit_def)
qed

lemma digitChar_value: "d < 10 \<Longrightarrow> digitValue (digitChar d) = d"
proof -
  assume "d < 10"
  from below_ten [OF this] show ?thesis by (auto simp: digitChar_def digitValue_def)
qed

lemma showNat_digits: "list_all isDigit (showNat n) \<and> showNat n \<noteq> []"
proof (induction n rule: showNat.induct)
  case (1 n)
  then show ?case by (cases "n < 10") (simp_all add: showNat.simps [of n] digitChar_digit)
qed

lemma showNat_value:
  "foldl (\<lambda>n d. 10 * n + digitValue d) 0 (showNat n) = n"
proof (induction n rule: showNat.induct)
  case (1 n)
  show ?case
  proof (cases "n < 10")
    case True
    then show ?thesis by (simp add: showNat.simps [of n] digitChar_value)
  next
    case False
    with 1 show ?thesis
      by (simp add: showNat.simps [of n] digitChar_value)
  qed
qed

lemma readNat_showNat:
  "rest = [] \<or> \<not> isDigit (hd rest) \<Longrightarrow> readNat (showNat n @ rest) = Some (n, rest)"
proof -
  assume r: "rest = [] \<or> \<not> isDigit (hd rest)"
  from showNat_digits [of n] have d: "\<forall>c\<in>set (showNat n). isDigit c" and ne: "showNat n \<noteq> []"
    by (simp_all add: list_all_iff)
  from r have tw: "takeWhile isDigit rest = []" and dw: "dropWhile isDigit rest = rest"
    by (cases rest; simp)+
  from d have "takeWhile isDigit (showNat n @ rest) = showNat n"
    "dropWhile isDigit (showNat n @ rest) = rest"
    by (simp_all add: takeWhile_append2 dropWhile_append2 tw dw)
  with ne show ?thesis by (simp add: readNat_def showNat_value)
qed

lemma expect_literal: "expect lit (lit @ s) = Some s"
  by (simp add: expect_def startsWith_def)

lemma parseHunkHeader_render:
  "parseHunkHeader (renderHunkHeader a b c d) = Some (a, b, c, d)"
proof -
  have comma: "\<not> isDigit CHR '',''" and space: "\<not> isDigit CHR '' ''" by (simp_all add: isDigit_def)
  have 1: "expect ''@@ -'' (renderHunkHeader a b c d)
      = Some (showNat a @ '','' @ showNat b @ '' +'' @ showNat c @ '','' @ showNat d @ '' @@'')"
    unfolding renderHunkHeader_def by (rule expect_literal)
  have 2: "readNat (showNat a @ '','' @ showNat b @ '' +'' @ showNat c @ '','' @ showNat d @ '' @@'')
      = Some (a, '','' @ showNat b @ '' +'' @ showNat c @ '','' @ showNat d @ '' @@'')"
    by (rule readNat_showNat) (simp add: comma)
  have 3: "expect '','' ('','' @ showNat b @ '' +'' @ showNat c @ '','' @ showNat d @ '' @@'')
      = Some (showNat b @ '' +'' @ showNat c @ '','' @ showNat d @ '' @@'')"
    by (rule expect_literal)
  have 4: "readNat (showNat b @ '' +'' @ showNat c @ '','' @ showNat d @ '' @@'')
      = Some (b, '' +'' @ showNat c @ '','' @ showNat d @ '' @@'')"
    by (rule readNat_showNat) (simp add: space)
  have 5: "expect '' +'' ('' +'' @ showNat c @ '','' @ showNat d @ '' @@'')
      = Some (showNat c @ '','' @ showNat d @ '' @@'')"
    by (rule expect_literal)
  have 6: "readNat (showNat c @ '','' @ showNat d @ '' @@'') = Some (c, '','' @ showNat d @ '' @@'')"
    by (rule readNat_showNat) (simp add: comma)
  have 7: "expect '','' ('','' @ showNat d @ '' @@'') = Some (showNat d @ '' @@'')"
    by (rule expect_literal)
  have 8: "readNat (showNat d @ '' @@'') = Some (d, '' @@'')"
    by (rule readNat_showNat) (simp add: space)
  have 9: "expect '' @@'' '' @@'' = Some []"
    using expect_literal [of "'' @@''" "[]"] by simp
  show ?thesis
    unfolding parseHunkHeader_def by (simp only: 1 2 3 4 5 6 7 8 9 option.case prod.case)
qed

subsection \<open>Parsing what was rendered\<close>

lemma readBody_render:
  "readBody (length (oldSide es)) (length (newSide es)) (map joinedEdit es @ rest)
     = (map joinedEdit es, rest)"
proof (induction es)
  case Nil
  then show ?case by (cases rest) simp_all
next
  case (Cons e es)
  then show ?case by (cases e) (simp_all add: tagOf_joined)
qed

lemma parseHunks_render: "parseHunks (concat (map joinedHunk hs)) = Inr (map readOf hs, [])"
proof (induction hs)
  case Nil
  then show ?case by (simp add: parseHunks.simps)
next
  case (Cons h hs)
  let ?header = "renderHunkHeader
       (writtenStart (ehOldStart h) (length (oldSide (ehEdits h)))) (length (oldSide (ehEdits h)))
       (writtenStart (ehNewStart h) (length (newSide (ehEdits h)))) (length (newSide (ehEdits h)))"
  let ?rest = "concat (map joinedHunk hs)"
  have "parseHunks (?header # map joinedEdit (ehEdits h) @ ?rest)
      = Inr (readOf h # map readOf hs, [])"
    by (subst parseHunks.simps)
      (simp add: header_marks parseHunkHeader_render readBody_render Cons.IH readOf_def)
  then show ?case by (simp add: joinedHunk_def [of h])
qed

lemma readStart_written: "1 \<le> start \<Longrightarrow> readStart (writtenStart start n) n = start"
  by (simp add: readStart_def writtenStart_def)

lemma finishHunk_readOf:
  assumes "1 \<le> ehOldStart h" "1 \<le> ehNewStart h" "\<forall>e\<in>set (ehEdits h). cleanEdit e"
  shows "finishHunk (readOf h) = parsedOf h"
proof -
  have "\<forall>e\<in>set es. cleanEdit e
      \<Longrightarrow> concat (map separateMarkers (map joinedEdit es)) = concat (map renderEdit es)" for es
    by (induction es) (simp_all add: separateMarkers_joined)
  from this [OF assms(3)] assms(1,2) show ?thesis
    by (simp add: finishHunk_def readOf_def parsedOf_def readStart_written del: map_map)
qed

lemma fileNameOf_line:
  "length mark = 4 \<Longrightarrow>
   fileNameOf (mark @ name @ [CHR 0x09] @ label) = takeWhile (\<lambda>c. c \<noteq> CHR 0x09) name"
  by (simp add: fileNameOf_def takeWhile_stop)

lemma showNat_no_newline: "CHR 0x0A \<notin> set (showNat n)"
proof -
  have "\<not> isDigit (CHR 0x0A)" by (simp add: isDigit_def)
  with showNat_digits [of n] show ?thesis unfolding list_all_iff by blast
qed

lemma rendered_rows_no_newline:
  assumes "\<forall>h\<in>set hs. \<forall>e\<in>set (ehEdits h). cleanEdit e"
  shows "\<forall>l\<in>set (concat (map renderHunk hs)). CHR 0x0A \<notin> set l"
proof
  fix l
  assume "l \<in> set (concat (map renderHunk hs))"
  then obtain h where h: "h \<in> set hs" and l: "l \<in> set (renderHunk h)" by auto
  have header: "CHR 0x0A \<notin> set (renderHunkHeader a b c d)" for a b c d
    by (simp add: renderHunkHeader_def showNat_no_newline)
  from l consider "l = renderHunkHeader
       (writtenStart (ehOldStart h) (length (oldSide (ehEdits h)))) (length (oldSide (ehEdits h)))
       (writtenStart (ehNewStart h) (length (newSide (ehEdits h)))) (length (newSide (ehEdits h)))"
    | e where "e \<in> set (ehEdits h)" "l \<in> set (renderEdit e)"
    unfolding renderHunk_def by auto
  then show "CHR 0x0A \<notin> set l"
  proof cases
    case 1
    with header show ?thesis by simp
  next
    case 2
    from 2(1) assms h have "cleanEdit e" by blast
    with 2(2) show ?thesis
      by (auto simp: renderEdit_def cleanEdit_def marker_chars noNewline_row split: if_splits)
  qed
qed

lemma parsePatch_render:
  assumes rows: "CHR 0x0A \<notin> set oldName" "CHR 0x0A \<notin> set newName"
                "CHR 0x0A \<notin> set oldLabel" "CHR 0x0A \<notin> set newLabel"
      and edits: "\<forall>h\<in>set hs. \<forall>e\<in>set (ehEdits h). cleanEdit e"
      and starts: "\<forall>h\<in>set hs. 1 \<le> ehOldStart h \<and> 1 \<le> ehNewStart h"
  shows "parsePatch (unlines ([''--- '' @ oldName @ [CHR 0x09] @ oldLabel,
                               ''+++ '' @ newName @ [CHR 0x09] @ newLabel]
                              @ concat (map renderHunk hs)))
     = Inr [\<lparr>oldFileName = Some (takeWhile (\<lambda>c. c \<noteq> CHR 0x09) oldName),
             newFileName = Some (takeWhile (\<lambda>c. c \<noteq> CHR 0x09) newName),
             fileHunks = map parsedOf hs\<rparr>]"
proof -
  let ?old = "''--- '' @ oldName @ [CHR 0x09] @ oldLabel"
  let ?new = "''+++ '' @ newName @ [CHR 0x09] @ newLabel"
  let ?rows = "[?old, ?new] @ concat (map renderHunk hs)"
  have "\<forall>l\<in>set ?rows. CHR 0x0A \<notin> set l"
    using rows rendered_rows_no_newline [OF edits] by auto
  then have split: "splitLines (unlines ?rows) = ?rows" by (rule splitLines_unlines)
  have "joinMarkers (?old # ?new # concat (map renderHunk hs))
      = ?old # joinMarkers (?new # concat (map renderHunk hs))"
    by (rule joinMarkers_plain) (simp add: startsWith_def)
  also have "joinMarkers (?new # concat (map renderHunk hs)) = ?new # joinMarkers (concat (map renderHunk hs))"
    by (rule joinMarkers_plain) (rule hunk_rows_head)
  finally have joined: "joinMarkers ?rows = ?old # ?new # concat (map joinedHunk hs)"
    by (simp add: joinMarkers_hunks)
  have o: "fileNameOf ?old = takeWhile (\<lambda>c. c \<noteq> CHR 0x09) oldName"
    by (intro fileNameOf_line) simp
  have n: "fileNameOf ?new = takeWhile (\<lambda>c. c \<noteq> CHR 0x09) newName"
    by (intro fileNameOf_line) simp
  have so: "startsWith ''--- '' ?old" and sn: "startsWith ''+++ '' ?new"
    by (simp_all add: startsWith_def)
  have sections: "parseSections (?old # ?new # concat (map joinedHunk hs))
      = Inr [\<lparr>oldFileName = Some (takeWhile (\<lambda>c. c \<noteq> CHR 0x09) oldName),
               newFileName = Some (takeWhile (\<lambda>c. c \<noteq> CHR 0x09) newName),
               fileHunks = map readOf hs\<rparr>]"
    by (subst parseSections.simps)
      (simp add: so sn o n parseHunks_render parseSections.simps Let_def del: append.simps)
  have finish: "map finishHunk (map readOf hs) = map parsedOf hs"
    using edits starts by (simp add: finishHunk_readOf)
  show ?thesis
    unfolding parsePatch_def split joined sections
    using finish by (simp add: finishFile_def)
qed

subsection \<open>The edit script and its hunks\<close>

lemma editScript_sides: "oldSide (editScript xs ys) = xs \<and> newSide (editScript xs ys) = ys"
proof (induction xs ys rule: editScript.induct)
  case (1 ys)
  show ?case by (induction ys) simp_all
next
  case (2 x xs)
  have "oldSide (map Remove zs) = zs \<and> newSide (map Remove zs) = []" for zs
    by (induction zs) simp_all
  then show ?case by (simp del: list.map)
next
  case (3 x xs y ys)
  then show ?case by (simp add: Let_def)
qed

lemma editScript_clean:
  "\<forall>l\<in>set xs \<union> set ys. CHR 0x0A \<notin> set (fst l)
   \<Longrightarrow> \<forall>e\<in>set (editScript xs ys). cleanEdit e"
proof (induction xs ys rule: editScript.induct)
  case (1 ys)
  then show ?case by (auto simp: cleanEdit_def)
next
  case (2 x xs)
  then show ?case by (auto simp: cleanEdit_def)
next
  case (3 x xs y ys)
  then show ?case by (auto simp: Let_def cleanEdit_def)
qed

lemma sides_append:
  "oldSide (es @ fs) = oldSide es @ oldSide fs" "newSide (es @ fs) = newSide es @ newSide fs"
  by (induction es rule: oldSide.induct) simp_all

lemma keep_sides: "\<forall>e\<in>set es. isKeep e \<Longrightarrow> newSide es = oldSide es \<and> length (oldSide es) = length es"
  by (induction es rule: oldSide.induct) simp_all

lemma hunkBody_append: "hunkBody contextLines es = (body, rest) \<Longrightarrow> body @ rest = es"
proof (induction contextLines es arbitrary: body rest rule: hunkBody.induct)
  case (1 contextLines es)
  define changes where "changes = takeWhile (\<lambda>e. \<not> isKeep e) es"
  define unchanged where "unchanged = takeWhile isKeep (dropWhile (\<lambda>e. \<not> isKeep e) es)"
  define tail where "tail = dropWhile isKeep (dropWhile (\<lambda>e. \<not> isKeep e) es)"
  have parts: "es = changes @ unchanged @ tail"
    by (simp add: changes_def unchanged_def tail_def)
  show ?case
  proof (cases "\<not> (tail = [] \<or> changes = []) \<and> length unchanged \<le> 2 * contextLines")
    case True
    obtain b r where rec: "hunkBody contextLines tail = (b, r)" by (cases "hunkBody contextLines tail")
    from "1.IH" [OF changes_def unchanged_def tail_def _ _ rec] True have "b @ r = tail" by simp
    moreover from "1.prems" True rec have "body = changes @ unchanged @ b" "rest = r"
      by (simp_all add: hunkBody.simps [of contextLines es] Let_def changes_def [symmetric]
          unchanged_def [symmetric] tail_def [symmetric])
    ultimately show ?thesis using parts by simp
  next
    case False
    with "1.prems" have "body = changes @ take contextLines unchanged"
      "rest = drop contextLines unchanged @ tail"
      by (auto simp: hunkBody.simps [of contextLines es] Let_def changes_def [symmetric]
          unchanged_def [symmetric] tail_def [symmetric] split: if_splits)
    with parts show ?thesis by simp
  qed
qed

lemma hunksFrom_none: "dropWhile isKeep es = [] \<Longrightarrow> hunksFrom contextLines oldNo newNo es = []"
  by (simp add: hunksFrom.simps [of contextLines oldNo newNo es])

lemma hunksFrom_step:
  assumes "dropWhile isKeep es \<noteq> []"
      and "hunkBody contextLines (dropWhile isKeep es) = (body, rest')"
      and "skipped = length (takeWhile isKeep es) - contextLines"
      and "shown = drop skipped (takeWhile isKeep es)"
  shows "hunksFrom contextLines oldNo newNo es
     = \<lparr>ehOldStart = oldNo + skipped + 1, ehNewStart = newNo + skipped + 1, ehEdits = shown @ body\<rparr>
       # hunksFrom contextLines (oldNo + skipped + length (oldSide (shown @ body)))
           (newNo + skipped + length (newSide (shown @ body))) rest'"
  using assms by (simp add: hunksFrom.simps [of contextLines oldNo newNo es] Let_def)

lemma hunksFrom_edits:
  "h \<in> set (hunksFrom contextLines oldNo newNo es)
   \<Longrightarrow> set (ehEdits h) \<subseteq> set es \<and> 1 \<le> ehOldStart h \<and> 1 \<le> ehNewStart h"
proof (induction contextLines oldNo newNo es rule: hunksFrom.induct)
  case (1 contextLines oldNo newNo es)
  define lead where "lead = takeWhile isKeep es"
  define rest where "rest = dropWhile isKeep es"
  define skipped where "skipped = length lead - contextLines"
  define shown where "shown = drop skipped lead"
  have es: "es = lead @ rest" by (simp add: lead_def rest_def)
  show ?case
  proof (cases "rest = []")
    case True
    with "1.prems" show ?thesis by (simp add: hunksFrom_none rest_def)
  next
    case False
    obtain body rest' where hb: "hunkBody contextLines rest = (body, rest')"
      by (cases "hunkBody contextLines rest")
    from hunkBody_append [OF hb] have rest: "rest = body @ rest'" by simp
    have step: "hunksFrom contextLines oldNo newNo es
       = \<lparr>ehOldStart = oldNo + skipped + 1, ehNewStart = newNo + skipped + 1, ehEdits = shown @ body\<rparr>
         # hunksFrom contextLines (oldNo + skipped + length (oldSide (shown @ body)))
             (newNo + skipped + length (newSide (shown @ body))) rest'"
      using False hb unfolding rest_def skipped_def shown_def lead_def by (rule hunksFrom_step) simp_all
    from "1.prems" step consider "h = \<lparr>ehOldStart = oldNo + skipped + 1, ehNewStart = newNo + skipped + 1, ehEdits = shown @ body\<rparr>"
      | "h \<in> set (hunksFrom contextLines (oldNo + skipped + length (oldSide (shown @ body)))
             (newNo + skipped + length (newSide (shown @ body))) rest')" by auto
    then show ?thesis
    proof cases
      case 1
      have "set shown \<subseteq> set lead" unfolding shown_def by (rule set_drop_subset)
      with 1 es rest show ?thesis by auto
    next
      case 2
      from "1.IH" [OF lead_def rest_def False skipped_def shown_def hb [symmetric] 2]
      have "set (ehEdits h) \<subseteq> set rest' \<and> 1 \<le> ehOldStart h \<and> 1 \<le> ehNewStart h" .
      with es rest show ?thesis by auto
    qed
  qed
qed

subsection \<open>Replaying the rendered hunks\<close>

lemma hunkLines_render:
  "\<forall>e\<in>set es. cleanEdit e
   \<Longrightarrow> hunkLines (concat (map renderEdit es)) = map (\<lambda>e. (tagOf (joinedEdit e), lineOf e)) es"
  using joinMarkers_edits [of "[]" es] by (simp add: hunkLines_def rowLine_joined)

lemma replayLines_old:
  "\<forall>e\<in>set es. cleanEdit e
   \<Longrightarrow> replayLines Removed (hunkLines (concat (map renderEdit es))) (oldSide es @ r) = Some (newSide es, r)"
proof -
  have "replayLines Removed (map (\<lambda>e. (tagOf (joinedEdit e), lineOf e)) es) (oldSide es @ r)
      = Some (newSide es, r)"
  proof (induction es)
    case Nil
    then show ?case by simp
  next
    case (Cons e es)
    then show ?case by (cases e) (simp_all add: tagOf_joined)
  qed
  then show "\<forall>e\<in>set es. cleanEdit e \<Longrightarrow> ?thesis" by (simp add: hunkLines_render)
qed

lemma replayLines_new:
  "\<forall>e\<in>set es. cleanEdit e
   \<Longrightarrow> replayLines Added (hunkLines (concat (map renderEdit es))) (newSide es @ r) = Some (oldSide es, r)"
proof -
  have "replayLines Added (map (\<lambda>e. (tagOf (joinedEdit e), lineOf e)) es) (newSide es @ r)
      = Some (oldSide es, r)"
  proof (induction es)
    case Nil
    then show ?case by simp
  next
    case (Cons e es)
    then show ?case by (cases e) (simp_all add: tagOf_joined)
  qed
  then show "\<forall>e\<in>set es. cleanEdit e \<Longrightarrow> ?thesis" by (simp add: hunkLines_render)
qed

lemma replayHunks_generic:
  fixes src tgt :: "edit list \<Rightarrow> textLine list" and pick :: "nat \<Rightarrow> nat \<Rightarrow> nat"
  assumes lines: "\<And>es r. \<forall>e\<in>set es. cleanEdit e
                   \<Longrightarrow> replayLines gone (hunkLines (concat (map renderEdit es))) (src es @ r) = Some (tgt es, r)"
      and src_app: "\<And>es fs. src (es @ fs) = src es @ src fs"
      and tgt_app: "\<And>es fs. tgt (es @ fs) = tgt es @ tgt fs"
      and keep: "\<And>es. \<forall>e\<in>set es. isKeep e \<Longrightarrow> tgt es = src es \<and> length (src es) = length es"
      and start: "\<And>h. start (toHunk (parsedOf h)) = int (pick (ehOldStart h) (ehNewStart h))"
      and pick: "\<And>a b k es. pick (a + k + length (oldSide es)) (b + k + length (newSide es))
                   = pick a b + k + length (src es)"
                "\<And>a b k. pick (a + k + 1) (b + k + 1) = pick a b + k + 1"
  shows "\<forall>e\<in>set es. cleanEdit e
         \<Longrightarrow> replayHunks gone start (map (\<lambda>h. toHunk (parsedOf h)) (hunksFrom contextLines oldNo newNo es))
               (pick oldNo newNo) (src es) = Some (tgt es)"
proof (induction contextLines oldNo newNo es rule: hunksFrom.induct)
  case (1 contextLines oldNo newNo es)
  define lead where "lead = takeWhile isKeep es"
  define rest where "rest = dropWhile isKeep es"
  define skipped where "skipped = length lead - contextLines"
  define shown where "shown = drop skipped lead"
  define hidden where "hidden = take skipped lead"
  have es: "es = lead @ rest" by (simp add: lead_def rest_def)
  have lead_keep: "\<forall>e\<in>set lead. isKeep e" unfolding lead_def by (auto dest: set_takeWhileD)
  show ?case
  proof (cases "rest = []")
    case True
    with es lead_keep have "tgt es = src es" by (simp add: keep)
    with True show ?thesis by (simp add: hunksFrom_none rest_def)
  next
    case False
    obtain body rest' where hb: "hunkBody contextLines rest = (body, rest')"
      by (cases "hunkBody contextLines rest")
    from hunkBody_append [OF hb] have rest: "rest = body @ rest'" by simp
    define h where "h = \<lparr>ehOldStart = oldNo + skipped + 1, ehNewStart = newNo + skipped + 1,
      ehEdits = shown @ body\<rparr>"
    define oldNo' where "oldNo' = oldNo + skipped + length (oldSide (shown @ body))"
    define newNo' where "newNo' = newNo + skipped + length (newSide (shown @ body))"
    have step: "hunksFrom contextLines oldNo newNo es = h # hunksFrom contextLines oldNo' newNo' rest'"
      unfolding h_def oldNo'_def newNo'_def
      using False hb unfolding rest_def skipped_def shown_def lead_def by (rule hunksFrom_step) simp_all
    have shown_sub: "set shown \<subseteq> set lead" unfolding shown_def by (rule set_drop_subset)
    have clean_hunk: "\<forall>e\<in>set (shown @ body). cleanEdit e"
      using "1.prems" es rest shown_sub by auto
    have clean_rest: "\<forall>e\<in>set rest'. cleanEdit e"
      using "1.prems" es rest by auto
    have IH: "replayHunks gone start (map (\<lambda>h. toHunk (parsedOf h)) (hunksFrom contextLines oldNo' newNo' rest'))
        (pick oldNo' newNo') (src rest') = Some (tgt rest')"
      unfolding oldNo'_def newNo'_def
      by (rule "1.IH" [OF lead_def rest_def False skipped_def shown_def hb [symmetric] clean_rest])
    have hidden_keep: "\<forall>e\<in>set hidden. isKeep e"
      using lead_keep unfolding hidden_def by (auto dest: in_set_takeD)
    have split: "es = hidden @ (shown @ body) @ rest'"
      using es rest by (simp add: hidden_def shown_def)
    have skipped_le: "skipped \<le> length lead" by (simp add: skipped_def)
    have hidden_len: "length (src hidden) = skipped"
      using keep [OF hidden_keep] skipped_le by (simp add: hidden_def)
    have src: "src es = src hidden @ src (shown @ body) @ src rest'"
      by (subst split) (simp only: src_app)
    have tgt: "tgt es = src hidden @ tgt (shown @ body) @ tgt rest'"
      using keep [OF hidden_keep] by (subst split) (simp only: tgt_app)
    have st: "start (toHunk (parsedOf h)) = int (pick oldNo newNo + skipped + 1)"
      unfolding h_def by (simp only: start editHunk.select_convs pick(2))
    have ln: "lines (toHunk (parsedOf h)) = concat (map renderEdit (shown @ body))"
      by (simp add: toHunk_def parsedOf_def h_def)
    have pos: "length (src es) + pick oldNo newNo - length (src rest') = pick oldNo' newNo'"
      unfolding oldNo'_def newNo'_def by (simp add: pick(1) src hidden_len)
    have dr: "drop skipped (src es) = src (shown @ body) @ src rest'"
      and tk: "take skipped (src es) = src hidden"
      using hidden_len by (simp_all add: src)
    have le: "skipped \<le> length (src es)" using hidden_len by (simp add: src)
    have skip: "start (toHunk (parsedOf h)) - 1 - int (pick oldNo newNo) = int skipped"
      by (simp add: st)
    have rl: "replayLines gone (hunkLines (lines (toHunk (parsedOf h)))) (drop (nat (int skipped)) (src es))
        = Some (tgt (shown @ body), src rest')"
      by (simp only: ln nat_int dr lines [OF clean_hunk])
    have ok: "\<not> (int skipped < 0 \<or> int (length (src es)) < int skipped)"
      using le by simp
    have final: "replayHunks gone start (toHunk (parsedOf h) # map (\<lambda>h. toHunk (parsedOf h)) (hunksFrom contextLines oldNo' newNo' rest'))
        (pick oldNo newNo) (src es) = Some (take (nat (int skipped)) (src es) @ tgt (shown @ body) @ tgt rest')"
      by (subst replayHunks.simps)
        (simp only: skip Let_def rl ok if_False option.case prod.case pos IH)
    show ?thesis
      unfolding step by (simp only: list.map final nat_int tk tgt)
  qed
qed

lemma replayOld_hunks:
  "\<forall>e\<in>set es. cleanEdit e \<Longrightarrow>
   replayOld (map (\<lambda>h. toHunk (parsedOf h)) (hunksFrom contextLines 0 0 es)) (oldSide es) = Some (newSide es)"
  unfolding replayOld_def
  using replayHunks_generic [where gone = Removed and src = oldSide and tgt = newSide
      and start = oldStart and pick = "\<lambda>a b. a" and oldNo = 0 and newNo = 0 and es = es
      and contextLines = contextLines]
  by (simp add: replayLines_old sides_append keep_sides toHunk_def parsedOf_def)

lemma replayNew_hunks:
  "\<forall>e\<in>set es. cleanEdit e \<Longrightarrow>
   replayNew (map (\<lambda>h. toHunk (parsedOf h)) (hunksFrom contextLines 0 0 es)) (newSide es) = Some (oldSide es)"
  unfolding replayNew_def
  using replayHunks_generic [where gone = Added and src = newSide and tgt = oldSide
      and start = newStart and pick = "\<lambda>a b. b" and oldNo = 0 and newNo = 0 and es = es
      and contextLines = contextLines]
  by (simp add: replayLines_new sides_append keep_sides toHunk_def parsedOf_def)



subsection \<open>The round trip\<close>

text \<open>Claim C1, as stated: the one \<open>FileDiff\<close> of the round trip has \<open>isNew\<close> true
  exactly when the old text is empty and \<open>isDeleted\<close> true exactly when the new text is
  empty. \<open>generateUnifiedDiff\<close> names the two sides \<open>a/<path>\<close> and \<open>b/<path>\<close> whatever
  the texts are, and \<open>parseDiff\<close> sets the flags only for the name \<open>/dev/null\<close>: for an
  empty old text, and for an empty new text, both flags are false. And the claim holds of
  no path with a line feed in it: the file rows of the patch are then broken in two, and
  for the path \<open>x\<close>, line feed, \<open>--- y\<close> the parse returns three \<open>FileDiff\<close>s.\<close>

theorem empty_side_not_flagged:
  "map_sum id (map (\<lambda>fd. (oldPath fd, isNew fd)))
     (parseDiff (generateUnifiedDiff [] ''a'' ''f.ts'' ''base'' ''branch'')) = Inr [(''a/f.ts'', False)]
   \<and> map_sum id (map (\<lambda>fd. (newPath fd, isDeleted fd)))
     (parseDiff (generateUnifiedDiff ''a'' [] ''f.ts'' ''base'' ''branch'')) = Inr [(''b/f.ts'', False)]
   \<and> map_sum id (map (\<lambda>fd. (oldPath fd, newPath fd)))
     (parseDiff (generateUnifiedDiff ''a'' ''b'' (''x'' @ [CHR 0x0A] @ ''--- y'') ''base'' ''branch''))
       = Inr [(''a/x'', []), (''y'', ''b/x''), (''y'', [])]"
  by code_simp

text \<open>Claim C1, amended: for every pair of texts \<open>A\<close> and \<open>B\<close> and every file path
  without a line feed, \<open>parseDiff(generateUnifiedDiff(A, B, path))\<close> returns exactly one
  \<open>FileDiff\<close>; its \<open>isNew\<close> and \<open>isDeleted\<close> are false whether or not \<open>A\<close> or \<open>B\<close>
  is empty; and replaying its hunks reconstructs both texts exactly: the removed and
  context lines match \<open>A\<close> at the hunks' old start lines and, with the added lines in
  their place, give \<open>B\<close>; the added and context lines match \<open>B\<close> at the new start lines
  and, with the removed lines in their place, give \<open>A\<close>. The lines are those of
  \<open>diff -u\<close>, a last line without a line feed being told from one with it, so that
  joining them gives the text back character for character.\<close>

theorem roundtrip_one_file_diff:
  assumes "CHR 0x0A \<notin> set filename"
  shows "\<exists>fd. parseDiff (generateUnifiedDiff A B filename ''base'' ''branch'') = Inr [fd]
           \<and> \<not> isNew fd \<and> \<not> isDeleted fd
           \<and> replayOld (hunks fd) (textLines A) = Some (textLines B)
           \<and> replayNew (hunks fd) (textLines B) = Some (textLines A)
           \<and> joinText (textLines A) = A \<and> joinText (textLines B) = B"
proof -
  define es where "es = editScript (textLines A) (textLines B)"
  define hs where "hs = hunksFrom 5 0 0 es"
  define diffText where "diffText = generateUnifiedDiff A B filename ''base'' ''branch''"
  define pfile where "pfile = \<lparr>oldFileName = Some (takeWhile (\<lambda>c. c \<noteq> CHR 0x09) (''a/'' @ filename)),
      newFileName = Some (takeWhile (\<lambda>c. c \<noteq> CHR 0x09) (''b/'' @ filename)),
      fileHunks = map parsedOf hs\<rparr>"
  have sides: "oldSide es = textLines A" "newSide es = textLines B"
    by (simp_all add: es_def editScript_sides)
  have "\<forall>l\<in>set (textLines A) \<union> set (textLines B). CHR 0x0A \<notin> set (fst l)"
    by (auto dest: textLines_no_newline)
  then have clean: "\<forall>e\<in>set es. cleanEdit e"
    unfolding es_def by (rule editScript_clean)
  have edits: "\<forall>h\<in>set hs. \<forall>e\<in>set (ehEdits h). cleanEdit e"
    using clean hunksFrom_edits [of _ 5 0 0 es] unfolding hs_def by blast
  have starts: "\<forall>h\<in>set hs. 1 \<le> ehOldStart h \<and> 1 \<le> ehNewStart h"
    using hunksFrom_edits [of _ 5 0 0 es] unfolding hs_def by blast
  have parsed: "parsePatch diffText = Inr [pfile]"
    unfolding diffText_def generateUnifiedDiff_def createTwoFilesPatch_def pfile_def
      es_def [symmetric] hs_def [symmetric]
    by (rule parsePatch_render) (use assms edits starts in simp_all)
  then have result: "parseDiff diffText = Inr [toFileDiff diffText pfile]"
    by (simp add: parseDiff_def)
  have flags: "\<not> isNew (toFileDiff diffText pfile)" "\<not> isDeleted (toFileDiff diffText pfile)"
    by (simp_all add: toFileDiff_def pfile_def)
  have hunks: "hunks (toFileDiff diffText pfile) = map (\<lambda>h. toHunk (parsedOf h)) (hunksFrom 5 0 0 es)"
    by (simp add: toFileDiff_def pfile_def hs_def)
  have fwd: "replayOld (hunks (toFileDiff diffText pfile)) (textLines A) = Some (textLines B)"
    using replayOld_hunks [OF clean, of 5] by (simp add: hunks sides)
  have bwd: "replayNew (hunks (toFileDiff diffText pfile)) (textLines B) = Some (textLines A)"
    using replayNew_hunks [OF clean, of 5] by (simp add: hunks sides)
  from result flags fwd bwd show ?thesis
    unfolding diffText_def by (auto simp: joinText_textLines)
qed

theorem roundtrip_one_file_diff_witness:
  "CHR 0x0A \<notin> set ''f.ts''
   \<and> (\<exists>fd. parseDiff (generateUnifiedDiff (''a'' @ [CHR 0x0A] @ ''b'') (''a'' @ [CHR 0x0A] @ ''c'' @ [CHR 0x0A]) ''f.ts'' ''base'' ''branch'') = Inr [fd]
           \<and> \<not> isNew fd \<and> \<not> isDeleted fd
           \<and> replayOld (hunks fd) (textLines (''a'' @ [CHR 0x0A] @ ''b'')) = Some (textLines (''a'' @ [CHR 0x0A] @ ''c'' @ [CHR 0x0A]))
           \<and> replayNew (hunks fd) (textLines (''a'' @ [CHR 0x0A] @ ''c'' @ [CHR 0x0A])) = Some (textLines (''a'' @ [CHR 0x0A] @ ''b''))
           \<and> joinText (textLines (''a'' @ [CHR 0x0A] @ ''b'')) = ''a'' @ [CHR 0x0A] @ ''b''
           \<and> joinText (textLines (''a'' @ [CHR 0x0A] @ ''c'' @ [CHR 0x0A])) = ''a'' @ [CHR 0x0A] @ ''c'' @ [CHR 0x0A])"
proof -
  have h: "CHR 0x0A \<notin> set ''f.ts''" by simp
  from roundtrip_one_file_diff [OF h, of "''a'' @ [CHR 0x0A] @ ''b''" "''a'' @ [CHR 0x0A] @ ''c'' @ [CHR 0x0A]"] h
  show ?thesis by blast
qed

text \<open>Rendered patches and what is parsed from them: a line added behind a line, the
  only line of a text removed, which has no line feed at its end, and a line feed added
  to the last line.\<close>

lemma rendered_samples:
  "splitLines (generateUnifiedDiff (''a'' @ [CHR 0x0A]) (''a'' @ [CHR 0x0A] @ ''b'' @ [CHR 0x0A]) ''f.ts'' ''base'' ''branch'')
     = [''--- a/f.ts'' @ [CHR 0x09] @ ''base'', ''+++ b/f.ts'' @ [CHR 0x09] @ ''branch'',
        ''@@ -1,1 +1,2 @@'', '' a'', ''+b'']"
  "splitLines (generateUnifiedDiff ''foo'' [] ''f.ts'' ''base'' ''branch'')
     = [''--- a/f.ts'' @ [CHR 0x09] @ ''base'', ''+++ b/f.ts'' @ [CHR 0x09] @ ''branch'',
        ''@@ -1,1 +0,0 @@'', ''-foo'', noNewline]"
  "splitLines (generateUnifiedDiff (''x'' @ [CHR 0x0A] @ ''a'') (''x'' @ [CHR 0x0A] @ ''a'' @ [CHR 0x0A]) ''f.ts'' ''base'' ''branch'')
     = [''--- a/f.ts'' @ [CHR 0x09] @ ''base'', ''+++ b/f.ts'' @ [CHR 0x09] @ ''branch'',
        ''@@ -1,2 +1,2 @@'', '' x'', ''-a'', noNewline, ''+a'']"
  "map_sum id (map hunks) (parseDiff (generateUnifiedDiff ''foo'' [] ''f.ts'' ''base'' ''branch''))
     = Inr [[\<lparr>oldStart = 1, newStart = 1, lines = [''-foo'', noNewline]\<rparr>]]"
  "replayOld [\<lparr>oldStart = 1, newStart = 1, lines = [''-foo'', noNewline]\<rparr>] (textLines ''foo'') = Some []"
  "replayNew [\<lparr>oldStart = 1, newStart = 1, lines = [''-foo'', noNewline]\<rparr>] (textLines []) = Some [(''foo'', False)]"
  by code_simp+

subsection \<open>Failure of the parse\<close>

lemma readBody_rest: "readBody oldLeft newLeft ls = (body, rest) \<Longrightarrow> set rest \<subseteq> set ls"
proof (induction ls arbitrary: oldLeft newLeft body rest)
  case Nil
  then show ?case by simp
next
  case (Cons l ls)
  show ?case
  proof (cases "oldLeft = 0 \<and> newLeft = 0")
    case True
    with Cons.prems show ?thesis by auto
  next
    case False
    obtain o' n' where c: "consume (tagOf l) oldLeft newLeft = (o', n')"
      by (cases "consume (tagOf l) oldLeft newLeft")
    obtain b r where rec: "readBody o' n' ls = (b, r)" by (cases "readBody o' n' ls")
    from False c rec Cons.prems have "rest = r" by auto
    with Cons.IH [OF rec] show ?thesis by auto
  qed
qed

lemma parseHunks_rest: "parseHunks ls = Inr (hs, rest) \<Longrightarrow> set rest \<subseteq> set ls"
proof (induction ls arbitrary: hs rest rule: parseHunks.induct)
  case 1
  then show ?case by (simp add: parseHunks.simps)
next
  case (2 l ls)
  show ?case
  proof (cases "startsWith ''--- '' l")
    case True
    with "2.prems" show ?thesis by (simp add: parseHunks.simps)
  next
    case notFile: False
    show ?thesis
    proof (cases "startsWith ''@@'' l")
      case False
      with notFile "2.prems" "2.IH"(2) show ?thesis by (fastforce simp: parseHunks.simps)
    next
      case True
      from True notFile "2.prems" obtain a b c d where hdr: "parseHunkHeader l = Some (a, b, c, d)"
        by (auto simp: parseHunks.simps split: option.splits)
      obtain body mid where rb: "readBody b d ls = (body, mid)" by (cases "readBody b d ls")
      from True notFile "2.prems" hdr rb obtain hs' where rec: "parseHunks mid = Inr (hs', rest)"
        by (auto simp: parseHunks.simps split: sum.splits)
      from "2.IH"(1) [OF notFile True hdr refl refl refl rb [symmetric] rec]
      have "set rest \<subseteq> set mid" .
      with readBody_rest [OF rb] show ?thesis by auto
    qed
  qed
qed

lemma parseHunks_failure: "parseHunks ls = Inl e \<Longrightarrow> \<exists>l\<in>set ls. badHeader l"
proof (induction ls rule: parseHunks.induct)
  case 1
  then show ?case by (simp add: parseHunks.simps)
next
  case (2 l ls)
  show ?case
  proof (cases "startsWith ''--- '' l")
    case True
    with "2.prems" show ?thesis by (simp add: parseHunks.simps)
  next
    case notFile: False
    show ?thesis
    proof (cases "startsWith ''@@'' l")
      case False
      with notFile "2.prems" "2.IH"(2) show ?thesis by (auto simp: parseHunks.simps)
    next
      case True
      show ?thesis
      proof (cases "parseHunkHeader l")
        case None
        with True show ?thesis by (auto simp: badHeader_def)
      next
        case (Some hdr)
        obtain a b c d where hdr: "hdr = (a, b, c, d)" by (cases hdr) auto
        obtain body mid where rb: "readBody b d ls = (body, mid)" by (cases "readBody b d ls")
        from "2.prems" True notFile Some hdr rb have "parseHunks mid = Inl e"
          by (auto simp: parseHunks.simps(2) [of l ls] split: sum.splits)
        from "2.IH"(1) [OF notFile True Some [unfolded hdr] refl refl refl rb [symmetric] this]
        have "\<exists>l\<in>set mid. badHeader l" .
        with readBody_rest [OF rb] show ?thesis by auto
      qed
    qed
  qed
qed

lemma parseSections_failure: "parseSections ls = Inl e \<Longrightarrow> \<exists>l\<in>set ls. badHeader l"
proof (induction ls rule: parseSections.induct)
  case 1
  then show ?case by (simp add: parseSections.simps)
next
  case (2 l ls)
  show ?case
  proof (cases "startsWith ''--- '' l")
    case False
    with "2.prems" "2.IH"(2) show ?thesis by (auto simp: parseSections.simps)
  next
    case True
    define newName where "newName = (case ls of m # ms \<Rightarrow> if startsWith ''+++ '' m then Some (fileNameOf m) else None
                        | [] \<Rightarrow> None)"
    define ls' where "ls' = (if newName = None then ls else tl ls)"
    have sub: "set ls' \<subseteq> set ls" unfolding ls'_def by (cases ls) auto
    show ?thesis
    proof (cases "parseHunks ls'")
      case (Inl e')
      with "2.prems" True have "e' = e"
        by (auto simp: parseSections.simps(2) [of l ls] Let_def newName_def [symmetric] ls'_def [symmetric])
      with parseHunks_failure [OF Inl] sub show ?thesis by auto
    next
      case (Inr r)
      obtain hs rest where r: "r = (hs, rest)" by (cases r)
      from parseHunks_rest [of ls' hs rest] Inr r have rest: "set rest \<subseteq> set ls'" by simp
      from "2.prems" True Inr r have "parseSections rest = Inl e"
        by (auto simp: parseSections.simps(2) [of l ls] Let_def newName_def [symmetric] ls'_def [symmetric]
            split: sum.splits)
      from "2.IH"(1) [OF True newName_def ls'_def Inr [unfolded r] refl this]
      have "\<exists>l\<in>set rest. badHeader l" .
      with rest sub show ?thesis by auto
    qed
  qed
qed

lemma joinMarkers_origin:
  "g \<in> set (joinMarkers ls) \<Longrightarrow> \<exists>l\<in>set ls. \<exists>s. g = l @ s \<and> (s = [] \<or> hd s = CHR 0x0A)"
proof (induction ls arbitrary: g rule: joinMarkers.induct)
  case (1 l m ls)
  show ?case
  proof (cases "startsWith [CHR 0x5C] m")
    case True
    with "1.prems" have "g \<in> set (joinMarkers ((l @ CHR 0x0A # m) # ls))" by simp
    from "1.IH"(1) [OF True this] obtain l' s where l': "l' \<in> set ((l @ CHR 0x0A # m) # ls)"
      and g: "g = l' @ s" and s: "s = [] \<or> hd s = CHR 0x0A" by blast
    show ?thesis
    proof (cases "l' = l @ CHR 0x0A # m")
      case True
      with g have "g = l @ (CHR 0x0A # m @ s)" by simp
      then show ?thesis by (intro bexI [of _ l] exI [of _ "CHR 0x0A # m @ s"]) simp_all
    next
      case False
      with l' have "l' \<in> set (l # m # ls)" by simp
      with g s show ?thesis by blast
    qed
  next
    case False
    with "1.prems" have "g = l \<or> g \<in> set (joinMarkers (m # ls))" by simp
    then show ?thesis
    proof
      assume "g = l"
      then show ?thesis by (intro bexI [of _ l] exI [of _ "[]"]) simp_all
    next
      assume "g \<in> set (joinMarkers (m # ls))"
      from "1.IH"(2) [OF False this] show ?thesis by auto
    qed
  qed
qed simp_all

lemma expect_append: "expect lit l = Some r \<Longrightarrow> expect lit (l @ s) = Some (r @ s)"
  by (auto simp: expect_def startsWith_def split: if_splits)
    (metis append_eq_conv_conj append_take_drop_id length_take min.absorb2 nat_le_linear take_all)

lemma readNat_append:
  "readNat l = Some (n, r) \<Longrightarrow> r \<noteq> [] \<Longrightarrow> readNat (l @ s) = Some (n, r @ s)"
proof -
  assume a: "readNat l = Some (n, r)" and ne: "r \<noteq> []"
  from a have r: "r = dropWhile isDigit l"
    by (auto simp: readNat_def Let_def split: if_splits)
  with ne obtain x where "x \<in> set l" "\<not> isDigit x"
    by (auto simp: dropWhile_eq_Nil_conv)
  then have "takeWhile isDigit (l @ s) = takeWhile isDigit l"
    "dropWhile isDigit (l @ s) = dropWhile isDigit l @ s"
    by (simp_all add: takeWhile_append1 dropWhile_append1)
  with a show ?thesis
    by (auto simp: readNat_def Let_def split: if_splits)
qed

lemma expect_nonempty: "expect lit l = Some r \<Longrightarrow> lit \<noteq> [] \<Longrightarrow> l \<noteq> []"
  by (auto simp: expect_def startsWith_def split: if_splits)

lemma parseHunkHeader_append:
  assumes "parseHunkHeader l = Some x"
  shows "parseHunkHeader (l @ s) = Some x"
proof -
  from assms obtain s1 a s2 s3 b s4 s5 c s6 s7 d s8 s9 where
    1: "expect ''@@ -'' l = Some s1" and 2: "readNat s1 = Some (a, s2)"
    and 3: "expect '','' s2 = Some s3" and 4: "readNat s3 = Some (b, s4)"
    and 5: "expect '' +'' s4 = Some s5" and 6: "readNat s5 = Some (c, s6)"
    and 7: "expect '','' s6 = Some s7" and 8: "readNat s7 = Some (d, s8)"
    and 9: "expect '' @@'' s8 = Some s9" and x: "x = (a, b, c, d)"
    unfolding parseHunkHeader_def by (auto split: option.splits)
  have ne: "s2 \<noteq> []" "s4 \<noteq> []" "s6 \<noteq> []" "s8 \<noteq> []"
    using 3 5 7 9 by (auto dest: expect_nonempty)
  note steps = expect_append [OF 1, of s] readNat_append [OF 2 ne(1), of s]
    expect_append [OF 3, of s] readNat_append [OF 4 ne(2), of s]
    expect_append [OF 5, of s] readNat_append [OF 6 ne(3), of s]
    expect_append [OF 7, of s] readNat_append [OF 8 ne(4), of s]
    expect_append [OF 9, of s]
  show ?thesis
    unfolding parseHunkHeader_def by (simp only: steps option.case prod.case x)
qed

lemma badHeader_origin:
  assumes "badHeader (l @ s)" "s = [] \<or> hd s = CHR 0x0A"
  shows "badHeader l"
proof -
  from assms(1) have sw: "startsWith ''@@'' (l @ s)" and none: "parseHunkHeader (l @ s) = None"
    by (simp_all add: badHeader_def)
  have "startsWith ''@@'' l"
  proof (cases l)
    case Nil
    with sw assms(2) show ?thesis by (cases s) (auto simp: startsWith_def)
  next
    case (Cons c l')
    with sw assms(2) show ?thesis by (cases l'; cases s) (auto simp: startsWith_def)
  qed
  moreover have "parseHunkHeader l = None"
  proof (cases "parseHunkHeader l")
    case (Some x)
    from parseHunkHeader_append [OF this, of s] none show ?thesis by simp
  qed simp
  ultimately show ?thesis by (simp add: badHeader_def)
qed

text \<open>Claim C8. \<open>parseDiff\<close> fails only when a line that starts a hunk header does not
  match the grammar \<open>@@ -a,b +c,d @@\<close>; and inside a hunk a line whose marker is neither
  \<open>+\<close> nor \<open>-\<close> is kept as a line of the hunk and counted as a context line, one old
  and one new line, whatever the marker is.\<close>

theorem parseDiff_fails_only_on_hunk_header:
  "(parseDiff diffText = Inl e \<longrightarrow>
      (\<exists>l\<in>set (splitLines diffText). startsWith ''@@'' l \<and> parseHunkHeader l = None))
   \<and> (\<not> startsWith ''+'' l \<and> \<not> startsWith ''-'' l \<and> (0 < oldLeft \<or> 0 < newLeft) \<longrightarrow>
        tagOf l = Context
        \<and> readBody oldLeft newLeft (l # ls)
            = (l # fst (readBody (oldLeft - 1) (newLeft - 1) ls),
               snd (readBody (oldLeft - 1) (newLeft - 1) ls)))"
proof (intro conjI impI)
  assume "parseDiff diffText = Inl e"
  then have "parseSections (joinMarkers (splitLines diffText)) = Inl e"
    by (simp add: parseDiff_def parsePatch_def split: sum.splits)
  from parseSections_failure [OF this]
  obtain g where g: "g \<in> set (joinMarkers (splitLines diffText))" and bad: "badHeader g" by blast
  from joinMarkers_origin [OF g] obtain l s where l: "l \<in> set (splitLines diffText)"
    and gl: "g = l @ s" and s: "s = [] \<or> hd s = CHR 0x0A" by blast
  from bad gl s have "badHeader l" by (auto intro: badHeader_origin)
  with l show "\<exists>l\<in>set (splitLines diffText). startsWith ''@@'' l \<and> parseHunkHeader l = None"
    by (auto simp: badHeader_def)
next
  assume a: "\<not> startsWith ''+'' l \<and> \<not> startsWith ''-'' l \<and> (0 < oldLeft \<or> 0 < newLeft)"
  then show "tagOf l = Context" by (simp add: tagOf_def)
  with a show "readBody oldLeft newLeft (l # ls)
            = (l # fst (readBody (oldLeft - 1) (newLeft - 1) ls),
               snd (readBody (oldLeft - 1) (newLeft - 1) ls))"
    by (auto split: prod.splits)
qed

theorem parseDiff_fails_only_on_hunk_header_witness:
  "parseDiff (unlines [''--- a/x'', ''+++ b/x'', ''@@ -x,1 +1,1 @@'', '' k'']) = Inl MalformedDiff
   \<and> (\<exists>l\<in>set (splitLines (unlines [''--- a/x'', ''+++ b/x'', ''@@ -x,1 +1,1 @@'', '' k''])).
         startsWith ''@@'' l \<and> parseHunkHeader l = None)
   \<and> \<not> startsWith ''+'' ''?odd'' \<and> \<not> startsWith ''-'' ''?odd'' \<and> ((0::nat) < 1 \<or> (0::nat) < 1)
   \<and> tagOf ''?odd'' = Context
   \<and> readBody 1 1 [''?odd'', ''@@ -9,1 +9,0 @@''] = ([''?odd''], [''@@ -9,1 +9,0 @@''])
   \<and> map_sum id (map (\<lambda>fd. map lines (hunks fd)))
        (parseDiff (unlines [''--- a/x'', ''+++ b/x'', ''@@ -1,2 +1,2 @@'', '' k'', ''?odd'']))
       = Inr [[['' k'', ''?odd'']]]"
proof -
  let ?bad = "unlines [''--- a/x'', ''+++ b/x'', ''@@ -x,1 +1,1 @@'', '' k'']"
  have f: "parseDiff ?bad = Inl MalformedDiff" by code_simp
  have m: "\<not> startsWith ''+'' ''?odd'' \<and> \<not> startsWith ''-'' ''?odd'' \<and> ((0::nat) < 1 \<or> (0::nat) < 1)"
    by (simp add: startsWith_def)
  have k: "map_sum id (map (\<lambda>fd. map lines (hunks fd)))
        (parseDiff (unlines [''--- a/x'', ''+++ b/x'', ''@@ -1,2 +1,2 @@'', '' k'', ''?odd'']))
       = Inr [[['' k'', ''?odd'']]]" by code_simp
  have r: "readBody 0 0 [''@@ -9,1 +9,0 @@''] = ([], [''@@ -9,1 +9,0 @@''])" by simp
  from parseDiff_fails_only_on_hunk_header [of ?bad MalformedDiff "''?odd''" 1 1 "[''@@ -9,1 +9,0 @@'']"]
    f m k r
  show ?thesis by simp
qed



section \<open>Properties of block extraction\<close>

lemma lineAt_Inr: "lineAt doc i = Inr t \<Longrightarrow> 0 \<le> i \<and> i < lineCount doc \<and> t = docLines doc ! nat i"
  by (auto simp: lineAt_def split: if_splits)

lemma scanUp_Some: "scanUp doc lo i = Inr (Some j) \<Longrightarrow> 0 \<le> j \<and> j < lineCount doc \<and> j \<le> i"
proof (induction doc lo i rule: scanUp.induct)
  case (1 doc lowest i)
  show ?case
  proof (cases "lineAt doc i")
    case (Inl e)
    with "1.prems" show ?thesis by (simp add: scanUp.simps [of doc lowest i] split: if_splits)
  next
    case (Inr t)
    show ?thesis
    proof (cases "lowest \<le> i \<and> \<not> isDeclaration t")
      case True
      with Inr "1.prems" have "scanUp doc lowest (i - 1) = Inr (Some j)"
        by (simp add: scanUp.simps [of doc lowest i])
      with "1.IH" [of t] True Inr show ?thesis by fastforce
    next
      case False
      with Inr "1.prems" lineAt_Inr [OF Inr] show ?thesis
        by (auto simp: scanUp.simps [of doc lowest i] split: if_splits)
    qed
  qed
qed

lemma scanUp_start: "scanUp doc lo i = Inr r \<Longrightarrow> lo \<le> i \<Longrightarrow> 0 \<le> i \<and> i < lineCount doc"
  by (cases "lineAt doc i") (auto simp: scanUp.simps [of doc lo i] dest: lineAt_Inr)

lemma scanDown_blockEnd:
  "scanDown doc mc i s = Inr s' \<Longrightarrow> blockEnd s' = blockEnd s \<or> (i \<le> blockEnd s' \<and> blockEnd s' < lineCount doc)"
proof (induction doc mc i s rule: scanDown.induct)
  case (1 doc maxChars i s)
  show ?case
  proof (cases "i < lineCount doc")
    case False
    with "1.prems" show ?thesis by (simp add: scanDown.simps [of doc maxChars i])
  next
    case inside: True
    show ?thesis
    proof (cases "lineAt doc i")
      case (Inl e)
      with inside "1.prems" show ?thesis by (simp add: scanDown.simps [of doc maxChars i])
    next
      case (Inr t)
      define count where "count = charCount s + int (length t) + 1"
      obtain depth found where br: "foldl braceStep (braceDepth s, foundOpenBrace s) t = (depth, found)"
        by (cases "foldl braceStep (braceDepth s, foundOpenBrace s) t")
      define s1 where "s1 = s\<lparr>braceDepth := depth, foundOpenBrace := found, charCount := count\<rparr>"
      show ?thesis
      proof (cases "(found \<and> depth = 0) \<or> count > maxChars")
        case True
        with inside Inr br "1.prems" have "s' = s1\<lparr>blockEnd := i\<rparr>"
          by (auto simp: scanDown.simps [of doc maxChars i] count_def s1_def Let_def split: if_splits)
        with inside show ?thesis by simp
      next
        case False
        with inside Inr br "1.prems" have rec: "scanDown doc maxChars (i + 1) s1 = Inr s'"
          by (auto simp: scanDown.simps [of doc maxChars i] count_def s1_def Let_def split: if_splits)
        have "blockEnd s' = blockEnd s1 \<or> (i + 1 \<le> blockEnd s' \<and> blockEnd s' < lineCount doc)"
          using "1.IH" [OF inside Inr count_def br [symmetric] refl s1_def] False rec by blast
        then show ?thesis by (auto simp: s1_def)
      qed
    qed
  qed
qed

lemma locateBlock_bounds:
  assumes "locateBlock doc sli mc = Inr (b, s)" and "0 \<le> sli"
  shows "0 \<le> b \<and> b \<le> blockEnd s \<and> blockEnd s < lineCount doc"
proof -
  from assms(1) obtain found where up: "scanUp doc (max 0 (sli - 20)) sli = Inr found"
    by (auto simp: locateBlock_def split: sum.splits)
  have lo: "max 0 (sli - 20) \<le> sli" using assms(2) by simp
  from scanUp_start [OF up lo] have sli: "0 \<le> sli" "sli < lineCount doc" by simp_all
  have b: "b = (case found of Some i \<Rightarrow> i | None \<Rightarrow> sli)"
    using assms(1) up by (auto simp: locateBlock_def Let_def split: sum.splits)
  have b_range: "0 \<le> b \<and> b < lineCount doc"
  proof (cases found)
    case None
    with b sli show ?thesis by simp
  next
    case (Some j)
    with up scanUp_Some [of doc "max 0 (sli - 20)" sli j] b show ?thesis by simp
  qed
  from assms(1) up b have down: "scanDown doc mc b
      \<lparr>braceDepth = 0, foundOpenBrace = False, charCount = 0, blockEnd = b\<rparr> = Inr s"
    by (auto simp: locateBlock_def Let_def split: sum.splits)
  from scanDown_blockEnd [OF down] b_range show ?thesis by auto
qed

lemma slice0_length: "0 \<le> e \<Longrightarrow> int (length (slice0 s e)) \<le> e"
  by (simp add: slice0_def Let_def)

lemma slice0_exact: "0 \<le> e \<Longrightarrow> e \<le> int (length s) \<Longrightarrow> int (length (slice0 s e)) = e"
  by (simp add: slice0_def Let_def)

lemma extractDefinitionBlock_bounds:
  assumes "extractDefinitionBlock doc sli mc = Inr (sl, el, content)" and "0 \<le> sli"
  shows "1 \<le> sl \<and> sl \<le> el \<and> el \<le> lineCount doc \<and> (0 \<le> mc \<longrightarrow> int (length content) \<le> mc)"
proof -
  from assms(1) obtain b s where loc: "locateBlock doc sli mc = Inr (b, s)"
    and res: "sl = b + 1" "el = blockEnd s + 1" "content = slice0 (getTextOfLines doc b (blockEnd s)) mc"
    by (auto simp: extractDefinitionBlock_def Let_def split: sum.splits)
  from locateBlock_bounds [OF loc assms(2)] res slice0_length [of mc] show ?thesis by auto
qed

lemma joined_length:
  "(\<Sum>l\<leftarrow>ls. int (length l) + 1) \<le> int (length (concat (map (\<lambda>l. l @ eolText e) ls)))"
proof (induction ls)
  case Nil
  then show ?case by simp
next
  case (Cons l ls)
  have "1 \<le> length (eolText e)" by (cases e) (simp_all add: eolText_def)
  with Cons show ?case by simp
qed

lemma getTextOfLines_length:
  assumes "0 \<le> b" "b \<le> e" "e < lineCount doc"
  shows "(\<Sum>l\<leftarrow>take (nat (e + 1 - b)) (drop (nat b) (docLines doc)). int (length l) + 1) - 1
           \<le> int (length (getTextOfLines doc b e))"
proof -
  define ls where "ls = take (nat (e + 1 - b)) (drop (nat b) (docLines doc))"
  have ne: "ls \<noteq> []" using assms by (auto simp: ls_def lineCount_def)
  show ?thesis
  proof (cases "e + 1 < lineCount doc")
    case True
    then have "getTextOfLines doc b e = concat (map (\<lambda>l. l @ eolText (eol doc)) ls)"
      by (simp add: getTextOfLines_def ls_def Let_def)
    with joined_length [of ls "eol doc"] show ?thesis by (simp add: ls_def)
  next
    case False
    then have content: "getTextOfLines doc b e = concat (map (\<lambda>l. l @ eolText (eol doc)) (butlast ls)) @ last ls"
      using ne by (simp add: getTextOfLines_def ls_def [symmetric] Let_def)
    have unsnoc: "ls = butlast ls @ [last ls]" using ne by simp
    have "(\<Sum>l\<leftarrow>ls. int (length l) + 1) = (\<Sum>l\<leftarrow>butlast ls. int (length l) + 1) + int (length (last ls)) + 1"
      by (subst unsnoc) simp
    with joined_length [of "butlast ls" "eol doc"] content show ?thesis by (simp add: ls_def)
  qed
qed

lemma scanDown_charCount:
  "scanDown doc mc i s = Inr s' \<Longrightarrow> 0 \<le> i \<Longrightarrow> charCount s \<le> mc \<Longrightarrow> mc < charCount s' \<Longrightarrow>
   i \<le> blockEnd s' \<and> blockEnd s' < lineCount doc \<and>
   charCount s' = charCount s +
     (\<Sum>l\<leftarrow>take (nat (blockEnd s' + 1 - i)) (drop (nat i) (docLines doc)). int (length l) + 1)"
proof (induction doc mc i s rule: scanDown.induct)
  case (1 doc maxChars i s)
  show ?case
  proof (cases "i < lineCount doc")
    case False
    with "1.prems" show ?thesis by (simp add: scanDown.simps [of doc maxChars i])
  next
    case inside: True
    show ?thesis
    proof (cases "lineAt doc i")
      case (Inl e)
      with inside "1.prems" show ?thesis by (simp add: scanDown.simps [of doc maxChars i])
    next
      case (Inr t)
      from lineAt_Inr [OF Inr] have t: "t = docLines doc ! nat i" by simp
      from inside "1.prems"(2) have len: "nat i < length (docLines doc)" by (simp add: lineCount_def)
      have here: "drop (nat i) (docLines doc) = t # drop (Suc (nat i)) (docLines doc)"
        using len t by (simp add: Cons_nth_drop_Suc)
      define count where "count = charCount s + int (length t) + 1"
      obtain depth found where br: "foldl braceStep (braceDepth s, foundOpenBrace s) t = (depth, found)"
        by (cases "foldl braceStep (braceDepth s, foundOpenBrace s) t")
      define s1 where "s1 = s\<lparr>braceDepth := depth, foundOpenBrace := found, charCount := count\<rparr>"
      show ?thesis
      proof (cases "(found \<and> depth = 0) \<or> count > maxChars")
        case True
        with inside Inr br "1.prems" have "s' = s1\<lparr>blockEnd := i\<rparr>"
          by (auto simp: scanDown.simps [of doc maxChars i] count_def s1_def Let_def split: if_splits)
        with inside here show ?thesis by (simp add: s1_def count_def)
      next
        case False
        with inside Inr br "1.prems" have rec: "scanDown doc maxChars (i + 1) s1 = Inr s'"
          by (auto simp: scanDown.simps [of doc maxChars i] count_def s1_def Let_def split: if_splits)
        from False have low: "charCount s1 \<le> maxChars" by (simp add: s1_def)
        have IH: "i + 1 \<le> blockEnd s' \<and> blockEnd s' < lineCount doc \<and>
           charCount s' = charCount s1 +
             (\<Sum>l\<leftarrow>take (nat (blockEnd s' + 1 - (i + 1))) (drop (nat (i + 1)) (docLines doc)). int (length l) + 1)"
          using "1.IH" [OF inside Inr count_def br [symmetric] refl s1_def _ _ rec _ low "1.prems"(4)]
            False "1.prems"(2) by simp
        then have n: "nat (blockEnd s' + 1 - i) = Suc (nat (blockEnd s' + 1 - (i + 1)))" by linarith
        have d: "nat (i + 1) = Suc (nat i)" using "1.prems"(2) by linarith
        from IH show ?thesis
          by (simp only: n here take_Suc_Cons d) (simp add: s1_def count_def)
      qed
    qed
  qed
qed

lemma truncated_content_length:
  assumes loc: "locateBlock doc sli mc = Inr (b, s)" and sli: "0 \<le> sli" and mc: "0 \<le> mc"
      and over: "mc < charCount s"
  shows "int (length (slice0 (getTextOfLines doc b (blockEnd s)) mc)) = mc"
proof -
  from locateBlock_bounds [OF loc sli] have b: "0 \<le> b" "b \<le> blockEnd s" "blockEnd s < lineCount doc"
    by simp_all
  from loc have down: "scanDown doc mc b
      \<lparr>braceDepth = 0, foundOpenBrace = False, charCount = 0, blockEnd = b\<rparr> = Inr s"
    by (auto simp: locateBlock_def Let_def split: sum.splits)
  from scanDown_charCount [OF down b(1) _ over] mc
  have "charCount s = (\<Sum>l\<leftarrow>take (nat (blockEnd s + 1 - b)) (drop (nat b) (docLines doc)). int (length l) + 1)"
    by simp
  with getTextOfLines_length [OF b] over have "mc \<le> int (length (getTextOfLines doc b (blockEnd s)))"
    by linarith
  with mc show ?thesis by (rule slice0_exact)
qed

section \<open>Properties of the traversal\<close>

lemma forEach_invariant:
  assumes step: "\<And>x s. P s \<Longrightarrow> P (snd (body x s))"
  shows "P s \<Longrightarrow> P (snd (forEach body xs s))"
proof (induction xs arbitrary: s)
  case Nil
  then show ?case by simp
next
  case (Cons x xs)
  obtain c s' where b: "body x s = (c, s')" by (cases "body x s")
  from step [OF Cons.prems, of x] b have P': "P s'" by simp
  show ?case
  proof (cases c)
    case Returned
    with b Cons.IH [OF P'] show ?thesis by simp
  next
    case Thrown
    with b P' show ?thesis by simp
  qed
qed

lemma processLocation_invariant:
  assumes rec: "\<And>u ls s. P s \<Longrightarrow> P (snd (recurse u ls s))"
      and "openStable P" and "visitStable P" and "recordStable env mc P"
      and P: "P s"
  shows "P (snd (processLocation recurse env fileUri name mc loc s))"
proof -
  define key where "key = definitionKey (locUri loc) (locLine loc)"
  define s1 where "s1 = observe (OpenDocument (locUri loc)) (addVisited key s)"
  show ?thesis
  proof (cases "locUri loc = fileUri \<or> key \<in> visited s")
    case True
    with P show ?thesis by (auto simp: processLocation_def key_def)
  next
    case False
    then have fresh: "key \<notin> visited s" and other: "locUri loc \<noteq> fileUri" by simp_all
    have P1: "P s1"
      using assms(2,3) P fresh by (simp add: s1_def openStable_def visitStable_def)
    show ?thesis
    proof (cases "openTextDocument env (locUri loc)")
      case None
      with fresh other P1 show ?thesis
        by (simp add: processLocation_def key_def [symmetric] s1_def [symmetric])
    next
      case (Some defDoc)
      show ?thesis
      proof (cases "extractDefinitionBlock defDoc (int (locLine loc)) mc")
        case (Inl e)
        with Some fresh other P1 show ?thesis
          by (simp add: processLocation_def key_def [symmetric] s1_def [symmetric])
      next
        case (Inr blk)
        obtain sl el content where blk: "blk = (sl, el, content)" by (cases blk)
        define ctx where "ctx = \<lparr>symbolName = name, originFile = asRelativePath env fileUri,
            definitionFile = asRelativePath env (locUri loc),
            definitionContent = content, startLine = sl, endLine = el\<rparr>"
        define s2 where "s2 = observe (Recorded (locUri loc) (locLine loc)) (pushResult ctx s1)"
        have "P s2"
          using assms(4) P fresh Some Inr
          unfolding recordStable_def s2_def s1_def ctx_def key_def blk by blast
        then have "P (snd (recurse (locUri loc) [sl, (sl + el) div 2] s2))" by (rule rec)
        with Some Inr blk fresh other show ?thesis
          by (simp add: processLocation_def key_def [symmetric] s1_def [symmetric]
              ctx_def [symmetric] s2_def [symmetric] Let_def)
      qed
    qed
  qed
qed

lemma processIdentifier_invariant:
  assumes loc: "\<And>name loc s. P s \<Longrightarrow> P (snd (processLocation recurse env fileUri name mc loc s))"
      and "probeStable P"
      and P: "P s"
  shows "P (snd (processIdentifier recurse env fileUri lineNo mc ident s))"
proof -
  obtain name col where ident: "ident = (name, col)" by (cases ident)
  define key where "key = probeKey fileUri lineNo col"
  show ?thesis
  proof (cases "key \<in> visited s")
    case True
    with P show ?thesis by (simp add: processIdentifier_def ident key_def)
  next
    case False
    define s1 where "s1 = observe (ResolveAt fileUri (nat (max (lineNo - 1) 0)) col) (addVisited key s)"
    have P1: "P s1" unfolding s1_def using assms(2) P False by (simp add: probeStable_def)
    have loop: "P (snd (forEach (processLocation recurse env fileUri name mc) locations s1))" for locations
      using loc P1 by (rule forEach_invariant)
    show ?thesis
      using False P1 loop
      by (simp add: processIdentifier_def ident key_def [symmetric] Let_def s1_def [symmetric]
          split: option.splits)
  qed
qed

lemma processLine_invariant:
  assumes ident: "\<And>ident s. P s \<Longrightarrow> P (snd (processIdentifier recurse env fileUri lineNo mc ident s))"
      and P: "P s"
  shows "P (snd (processLine recurse env fileUri document mc lineNo s))"
proof (cases "lineAt document (min (lineNo - 1) (lineCount document - 1))")
  case (Inl e)
  with P show ?thesis by (simp add: processLine_def)
next
  case (Inr lineText)
  have "P (snd (forEach (processIdentifier recurse env fileUri lineNo mc) (extractIdentifiers lineText) s))"
    using ident P by (rule forEach_invariant)
  with Inr show ?thesis by (simp add: processLine_def)
qed

lemma gatherRecursive_invariant:
  assumes gen: "openStable P" "visitStable P" "probeStable P" "scanStable P"
  shows "recordStable env mc P \<Longrightarrow> P st
     \<Longrightarrow> P (snd (gatherRecursive env fileUri targetLines maxDepth currentDepth st mc))"
proof (induction env fileUri targetLines maxDepth currentDepth st mc rule: gatherRecursive.induct)
  case (1 env fileUri targetLines maxDepth currentDepth st mc)
  note stable = gen(1-3) "1.prems"(1) and scan = gen(4) and P = "1.prems"(2)
  define st1 where "st1 = observe (OpenDocument fileUri) st"
  have P1: "P st1" using stable(1) P by (simp add: st1_def openStable_def)
  show ?case
  proof (cases "currentDepth \<ge> maxDepth")
    case True
    with P show ?thesis by (simp add: gatherRecursive.simps)
  next
    case deeper: False
    show ?thesis
    proof (cases "openTextDocument env fileUri")
      case None
      with deeper P1 show ?thesis by (simp add: gatherRecursive.simps st1_def)
    next
      case (Some document)
      show ?thesis
      proof (cases "fileUri \<in> visited st1")
        case True
        with deeper Some P1 show ?thesis by (simp add: gatherRecursive.simps st1_def)
      next
        case False
        define recurse where "recurse = (\<lambda>uri nextLines s.
          gatherRecursive env uri nextLines maxDepth (currentDepth + 1) s mc)"
        have rec: "P (snd (recurse u ls s))" if "P s" for u ls s
          unfolding recurse_def
          using "1.IH" [OF deeper st1_def Some False stable(4) that] .
        have loc: "P (snd (processLocation recurse env fileUri name mc loc s))" if "P s" for name loc s
          using rec stable(1,2,4) that by (rule processLocation_invariant)
        have ident: "P (snd (processIdentifier recurse env fileUri lineNo mc ident s))" if "P s" for lineNo ident s
          using loc stable(3) that by (rule processIdentifier_invariant)
        have line: "P (snd (processLine recurse env fileUri document mc lineNo s))" if "P s" for lineNo s
          using ident that by (rule processLine_invariant)
        have "P (observe (ScanLines fileUri) (addVisited fileUri st1))"
          using scan P1 False by (simp add: scanStable_def)
        with line have "P (snd (forEach (processLine recurse env fileUri document mc) targetLines
            (observe (ScanLines fileUri) (addVisited fileUri st1))))"
          by (rule forEach_invariant)
        with deeper Some False show ?thesis
          by (simp add: gatherRecursive.simps [of env fileUri] st1_def [symmetric] recurse_def [symmetric] Let_def)
      qed
    qed
  qed
qed

subsection \<open>The depth gate and the visited files\<close>

lemma gatherRecursive_gate:
  "maxDepth \<le> currentDepth \<Longrightarrow>
   gatherRecursive env fileUri ls maxDepth currentDepth st mc = (Returned, st)"
  by (simp add: gatherRecursive.simps [of env fileUri])

lemma gatherRecursive_revisit:
  "fileUri \<in> visited st \<Longrightarrow> currentDepth < maxDepth \<Longrightarrow>
   gatherRecursive env fileUri ls maxDepth currentDepth st mc = (Returned, observe (OpenDocument fileUri) st)"
  by (simp add: gatherRecursive.simps [of env fileUri] Let_def observe_def split: option.splits)

lemma revisit_results:
  "fileUri \<in> visited st \<Longrightarrow>
   results (snd (gatherRecursive env fileUri ls maxDepth currentDepth st mc)) = results st"
  by (cases "maxDepth \<le> currentDepth") (simp_all add: gatherRecursive_gate gatherRecursive_revisit observe_def)

text \<open>Claim C6. A call at a depth that has reached \<open>maxDepth\<close> returns at once and leaves
  the visited set, the results and the trace (no document asked for, no position resolved)
  as they were; so the exported function with \<open>maxDepth = 0\<close> returns the empty list
  for every origin file and every list of seed lines.\<close>

theorem depth_gate_no_effect:
  "maxDepth \<le> currentDepth \<Longrightarrow>
   gatherRecursive env fileUri targetLines maxDepth currentDepth st maxCharsPerFile = (Returned, st)
   \<and> gatherDefinitionsForChangedLines env' origin seedLines 0 maxCharsPerFile' = Inr []"
  by (simp add: gatherRecursive.simps [of _ _ _ _ _ _ _] gatherDefinitionsForChangedLines_def emptyState_def)

theorem depth_gate_no_effect_witness:
  "(3::int) \<le> 3
   \<and> gatherRecursive cycleEnv ''Y'' [1, 2] 3 3 (addVisited ''X'' emptyState) 20000
       = (Returned, addVisited ''X'' emptyState)
   \<and> gatherDefinitionsForChangedLines cycleEnv ''X'' [2] 0 20000 = Inr []"
  using depth_gate_no_effect [of 3 3 cycleEnv "''Y''" "[1, 2]" "addVisited ''X'' emptyState" 20000
      cycleEnv "''X''" "[2]" 20000]
  by simp

text \<open>Claim C4, as stated: within one traversal every file is opened at most once. In the
  mutual reference \<open>Y\<close> is opened twice: once to extract the block of \<open>foo\<close>, once more
  when the recursive call enters \<open>Y\<close>.\<close>

theorem file_opened_twice:
  "count_list (trace (snd (gatherRecursive cycleEnv ''X'' [2] 5 0 emptyState 20000))) (OpenDocument ''Y'') = 2"
  by code_simp

lemma scannedFiles_append: "scannedFiles (es @ fs) = scannedFiles es @ scannedFiles fs"
  by (induction es rule: scannedFiles.induct) simp_all

lemma scannedOnce_stable:
  shows "openStable scannedOnce" and "visitStable scannedOnce" and "probeStable scannedOnce"
    and "scanStable scannedOnce" and "recordStable env mc scannedOnce"
proof -
  show "openStable scannedOnce"
    by (simp add: openStable_def scannedOnce_def observe_def scannedFiles_append)
  show "visitStable scannedOnce"
    by (auto simp: visitStable_def scannedOnce_def addVisited_def)
  show "probeStable scannedOnce"
    by (auto simp: probeStable_def scannedOnce_def observe_def addVisited_def scannedFiles_append)
  show "scanStable scannedOnce"
    by (auto simp: scanStable_def scannedOnce_def observe_def addVisited_def scannedFiles_append)
  show "recordStable env mc scannedOnce"
    by (auto simp: recordStable_def scannedOnce_def observe_def addVisited_def pushResult_def
        scannedFiles_append)
qed

lemma traversal_scannedOnce:
  "scannedOnce (snd (gatherRecursive env fileUri changedLines maxDepth 0 emptyState mc))"
proof -
  have init: "scannedOnce emptyState" by (simp add: scannedOnce_def emptyState_def)
  show ?thesis using scannedOnce_stable init by (rule gatherRecursive_invariant)
qed

text \<open>Claim C4, amended: within one traversal the target lines of every file are scanned
  at most once, though its document may be asked for several times: a recursive entry
  below the depth bound into a file that is already in the visited set asks for the
  document once more and then returns; it resolves no position, appends no result and
  adds no key.\<close>

theorem visited_file_reopened_and_skipped:
  "fileUri \<in> visited st \<Longrightarrow> currentDepth < maxDepth \<Longrightarrow>
   gatherRecursive env fileUri targetLines maxDepth currentDepth st maxCharsPerFile
     = (Returned, st\<lparr>trace := trace st @ [OpenDocument fileUri]\<rparr>)
   \<and> distinct (scannedFiles (trace (snd
         (gatherRecursive env' origin changedLines maxDepth' 0 emptyState maxCharsPerFile'))))"
  using traversal_scannedOnce [of env' origin changedLines maxDepth' maxCharsPerFile']
  by (simp add: gatherRecursive.simps [of env fileUri] Let_def observe_def scannedOnce_def
      split: option.splits)

theorem visited_file_reopened_and_skipped_witness:
  "''X'' \<in> visited (addVisited ''X'' emptyState) \<and> (2::int) < 5
   \<and> gatherRecursive cycleEnv ''X'' [1, 2] 5 2 (addVisited ''X'' emptyState) 20000
       = (Returned, \<lparr>visited = {''X''}, results = [], trace = [OpenDocument ''X'']\<rparr>)
   \<and> scannedFiles (trace (snd (gatherRecursive cycleEnv ''X'' [2] 5 0 emptyState 20000)))
       = [''X'', ''Y'']
   \<and> distinct (scannedFiles (trace (snd (gatherRecursive cycleEnv ''X'' [2] 5 0 emptyState 20000))))"
proof -
  have v: "''X'' \<in> visited (addVisited ''X'' emptyState)" by (simp add: addVisited_def)
  have d: "(2::int) < 5" by simp
  have s: "scannedFiles (trace (snd (gatherRecursive cycleEnv ''X'' [2] 5 0 emptyState 20000)))
       = [''X'', ''Y'']" by code_simp
  from visited_file_reopened_and_skipped [OF v d, of cycleEnv "[1, 2]" 20000 cycleEnv "''X''" "[2]" 5 20000]
    v d s
  show ?thesis by (simp add: addVisited_def emptyState_def)
qed

subsection \<open>Well-formed records\<close>

lemma wellFormed_stable:
  assumes "0 \<le> mc"
  shows "openStable (\<lambda>s. list_all (wellFormedContext mc) (results s))"
    and "visitStable (\<lambda>s. list_all (wellFormedContext mc) (results s))"
    and "probeStable (\<lambda>s. list_all (wellFormedContext mc) (results s))"
    and "scanStable (\<lambda>s. list_all (wellFormedContext mc) (results s))"
    and "recordStable env mc (\<lambda>s. list_all (wellFormedContext mc) (results s))"
proof -
  show "scanStable (\<lambda>s. list_all (wellFormedContext mc) (results s))"
    by (simp add: scanStable_def observe_def addVisited_def)
  show "openStable (\<lambda>s. list_all (wellFormedContext mc) (results s))"
    by (simp add: openStable_def observe_def)
  show "visitStable (\<lambda>s. list_all (wellFormedContext mc) (results s))"
    by (simp add: visitStable_def addVisited_def)
  show "probeStable (\<lambda>s. list_all (wellFormedContext mc) (results s))"
    by (simp add: probeStable_def observe_def addVisited_def)
  show "recordStable env mc (\<lambda>s. list_all (wellFormedContext mc) (results s))"
    unfolding recordStable_def
  proof (intro allI impI)
    fix s :: gstate and name fileUri and loc :: Location and defDoc sl el content
    assume P: "list_all (wellFormedContext mc) (results s)"
      and blk: "extractDefinitionBlock defDoc (int (locLine loc)) mc = Inr (sl, el, content)"
    from extractDefinitionBlock_bounds [OF blk] assms
    have "1 \<le> sl \<and> sl \<le> el \<and> int (length content) \<le> mc" by simp
    with P show "list_all (wellFormedContext mc)
        (results (observe (Recorded (locUri loc) (locLine loc))
           (pushResult \<lparr>symbolName = name, originFile = asRelativePath env fileUri,
                         definitionFile = asRelativePath env (locUri loc),
                         definitionContent = content, startLine = sl, endLine = el\<rparr>
              (observe (OpenDocument (locUri loc))
                 (addVisited (definitionKey (locUri loc) (locLine loc)) s)))))"
      by (simp add: observe_def pushResult_def addVisited_def wellFormedContext_def)
  qed
qed

text \<open>Claim C10, as stated: every appended record has a content no longer than the budget,
  for every budget. With the budget \<open>-1\<close> the call \<open>content.slice(0, -1)\<close> drops the last
  character of the block and keeps the other sixteen.\<close>

theorem negative_budget_record:
  "map (\<lambda>ctx. int (length (definitionContent ctx)))
     (results (snd (gatherRecursive cycleEnv ''X'' [2] 1 0 emptyState (- 1)))) = [16]
   \<and> \<not> list_all (wellFormedContext (- 1))
         (results (snd (gatherRecursive cycleEnv ''X'' [2] 1 0 emptyState (- 1))))"
  by code_simp

text \<open>Claim C10, amended: for a budget that is not negative, every record appended by a
  traversal, whatever the file, the seed lines and the depth, has
  \<open>1 \<le> startLine \<le> endLine\<close> and a content no longer than the budget.\<close>

theorem appended_records_well_formed:
  "0 \<le> maxCharsPerFile \<Longrightarrow>
   list_all (wellFormedContext maxCharsPerFile)
     (results (snd (gatherRecursive env fileUri changedLines maxDepth 0 emptyState maxCharsPerFile)))
   \<and> (case gatherDefinitionsForChangedLines env fileUri changedLines maxDepth maxCharsPerFile of
        Inl e \<Rightarrow> True
      | Inr rs \<Rightarrow> list_all (wellFormedContext maxCharsPerFile) rs)"
proof -
  assume budget: "0 \<le> maxCharsPerFile"
  have "list_all (wellFormedContext maxCharsPerFile) (results emptyState)"
    by (simp add: emptyState_def)
  with wellFormed_stable [OF budget]
  have all: "list_all (wellFormedContext maxCharsPerFile)
     (results (snd (gatherRecursive env fileUri changedLines maxDepth 0 emptyState maxCharsPerFile)))"
    by (rule gatherRecursive_invariant)
  obtain c st where run: "gatherRecursive env fileUri changedLines maxDepth 0 emptyState maxCharsPerFile = (c, st)"
    by (cases "gatherRecursive env fileUri changedLines maxDepth 0 emptyState maxCharsPerFile")
  with all show ?thesis
    by (cases c) (simp_all add: gatherDefinitionsForChangedLines_def)
qed

theorem appended_records_well_formed_witness:
  "(0::int) \<le> 5
   \<and> results (snd (gatherRecursive cycleEnv ''X'' [2] 1 0 emptyState 5))
       = [\<lparr>symbolName = ''foo'', originFile = ''X'', definitionFile = ''Y'',
           definitionContent = ''funct'', startLine = 1, endLine = 1\<rparr>]
   \<and> list_all (wellFormedContext 5) (results (snd (gatherRecursive cycleEnv ''X'' [2] 1 0 emptyState 5)))
   \<and> (case gatherDefinitionsForChangedLines cycleEnv ''X'' [2] 1 5 of
        Inl e \<Rightarrow> True
      | Inr rs \<Rightarrow> list_all (wellFormedContext 5) rs)"
proof -
  have b: "(0::int) \<le> 5" by simp
  have r: "results (snd (gatherRecursive cycleEnv ''X'' [2] 1 0 emptyState 5))
       = [\<lparr>symbolName = ''foo'', originFile = ''X'', definitionFile = ''Y'',
           definitionContent = ''funct'', startLine = 1, endLine = 1\<rparr>]"
    by code_simp
  from b r appended_records_well_formed [OF b, of cycleEnv "''X''" "[2]" 1] show ?thesis by simp
qed

subsection \<open>Deduplication\<close>

lemma recordedLocations_append:
  "recordedLocations (es @ fs) = recordedLocations es @ recordedLocations fs"
  by (induction es rule: recordedLocations.induct) simp_all

lemma recordedOnce_stable:
  shows "openStable (recordedOnce env)" and "visitStable (recordedOnce env)"
    and "probeStable (recordedOnce env)" and "scanStable (recordedOnce env)"
    and "recordStable env mc (recordedOnce env)"
proof -
  show "scanStable (recordedOnce env)"
    by (auto simp: scanStable_def recordedOnce_def observe_def addVisited_def recordedLocations_append)
  show "openStable (recordedOnce env)"
    by (simp add: openStable_def recordedOnce_def observe_def recordedLocations_append)
  show "visitStable (recordedOnce env)"
    by (auto simp: visitStable_def recordedOnce_def addVisited_def)
  show "probeStable (recordedOnce env)"
    by (auto simp: probeStable_def recordedOnce_def observe_def addVisited_def recordedLocations_append)
  show "recordStable env mc (recordedOnce env)"
    unfolding recordStable_def
  proof (intro allI impI)
    fix s :: gstate and name fileUri and loc :: Location and defDoc :: TextDocument
      and sl el :: int and content :: string
    assume P: "recordedOnce env s"
      and fresh: "definitionKey (locUri loc) (locLine loc) \<notin> visited s"
    from P fresh have new: "definitionKey (locUri loc) (locLine loc)
        \<notin> (\<lambda>(u, l). definitionKey u l) ` set (recordedLocations (trace s))"
      by (auto simp: recordedOnce_def)
    with P show "recordedOnce env
        (observe (Recorded (locUri loc) (locLine loc))
           (pushResult \<lparr>symbolName = name, originFile = asRelativePath env fileUri,
                         definitionFile = asRelativePath env (locUri loc),
                         definitionContent = content, startLine = sl, endLine = el\<rparr>
              (observe (OpenDocument (locUri loc))
                 (addVisited (definitionKey (locUri loc) (locLine loc)) s))))"
      by (auto simp: recordedOnce_def observe_def pushResult_def addVisited_def recordedLocations_append)
  qed
qed

lemma gatherRecursive_grows:
  "\<exists>more. results (snd (gatherRecursive env fileUri ls maxDepth currentDepth st mc)) = results st @ more"
  "visited st \<subseteq> visited (snd (gatherRecursive env fileUri ls maxDepth currentDepth st mc))"
  "set (recordedLocations (trace st))
     \<subseteq> set (recordedLocations (trace (snd (gatherRecursive env fileUri ls maxDepth currentDepth st mc))))"
proof -
  let ?run = "snd (gatherRecursive env fileUri ls maxDepth currentDepth st mc)"
  define P where "P = (\<lambda>s::gstate. \<exists>more. results s = results st @ more)"
  have "openStable P" "visitStable P" "probeStable P" "scanStable P" "recordStable env mc P"
    by (auto simp: P_def openStable_def visitStable_def probeStable_def scanStable_def
        recordStable_def observe_def addVisited_def pushResult_def)
  moreover have "P st" by (simp add: P_def)
  ultimately have "P ?run" by (rule gatherRecursive_invariant)
  then show "\<exists>more. results ?run = results st @ more" by (simp add: P_def)
  define Q where "Q = (\<lambda>s::gstate. visited st \<subseteq> visited s)"
  have "openStable Q" "visitStable Q" "probeStable Q" "scanStable Q" "recordStable env mc Q"
    by (auto simp: Q_def openStable_def visitStable_def probeStable_def scanStable_def
        recordStable_def observe_def addVisited_def pushResult_def)
  moreover have "Q st" by (simp add: Q_def)
  ultimately have "Q ?run" by (rule gatherRecursive_invariant)
  then show "visited st \<subseteq> visited ?run" by (simp add: Q_def)
  define T where "T = (\<lambda>s::gstate. set (recordedLocations (trace st)) \<subseteq> set (recordedLocations (trace s)))"
  have "openStable T" "visitStable T" "probeStable T" "scanStable T" "recordStable env mc T"
    by (auto simp: T_def openStable_def visitStable_def probeStable_def scanStable_def
        recordStable_def observe_def addVisited_def pushResult_def recordedLocations_append)
  moreover have "T st" by (simp add: T_def)
  ultimately have "T ?run" by (rule gatherRecursive_invariant)
  then show "set (recordedLocations (trace st)) \<subseteq> set (recordedLocations (trace ?run))"
    by (simp add: T_def)
qed

lemma count_list_distinct: "distinct xs \<Longrightarrow> x \<in> set xs \<Longrightarrow> count_list xs x = 1"
  by (induction xs) (auto simp: count_list_0_iff)

lemma processLocation_fresh:
  assumes "locUri loc \<noteq> fileUri"
      and "definitionKey (locUri loc) (locLine loc) \<notin> visited st"
      and "openTextDocument env (locUri loc) = Some defDoc"
      and "extractDefinitionBlock defDoc (int (locLine loc)) mc = Inr (sl, el, content)"
  shows "processLocation recurse env fileUri name mc loc st
     = (Returned,
        snd (recurse (locUri loc) [sl, (sl + el) div 2]
          (observe (Recorded (locUri loc) (locLine loc))
             (pushResult \<lparr>symbolName = name, originFile = asRelativePath env fileUri,
                           definitionFile = asRelativePath env (locUri loc),
                           definitionContent = content, startLine = sl, endLine = el\<rparr>
                (observe (OpenDocument (locUri loc))
                   (addVisited (definitionKey (locUri loc) (locLine loc)) st))))))"
  using assms by (simp add: processLocation_def Let_def)

lemma processLocation_known:
  "definitionKey (locUri loc) (locLine loc) \<in> visited st
   \<Longrightarrow> processLocation recurse env fileUri name mc loc st = (Returned, st)"
  by (simp add: processLocation_def Let_def)

text \<open>Claim C3, as stated: the result list never holds two records with the same
  \<open>definitionFile\<close> and \<open>startLine\<close>. The key that is checked is built from the resolved
  line, before the block is extracted: two methods of one class resolve to different lines
  and both give the block that starts at the \<open>class\<close> line.\<close>

theorem same_block_recorded_twice:
  "map (\<lambda>ctx. (symbolName ctx, definitionFile ctx, startLine ctx))
     (results (snd (gatherRecursive classEnv ''C'' [1, 2] 1 0 emptyState 20000)))
     = [(''alpha'', ''K'', 1), (''beta'', ''K'', 1)]
   \<and> \<not> distinct (map (\<lambda>ctx. (definitionFile ctx, startLine ctx))
         (results (snd (gatherRecursive classEnv ''C'' [1, 2] 1 0 emptyState 20000))))"
  by code_simp

text \<open>Claim C3, amended: within one traversal at most one record is appended for every
  resolved location, that is for every pair of a definition file and the line the resolver
  answered with (not the start line of the extracted block), and two changed lines that
  resolve to the same location give exactly one record. When a location in another file is
  resolved for the first time (its key is not yet visited) and its block can be extracted,
  its record is appended behind the records that are there, and once the recursive call
  below it has returned the location is recorded exactly once; when the same location is
  resolved again at any later moment of the traversal, from whatever line, file and name,
  nothing is changed. For every run the recorded locations are pairwise different, and the
  result list holds one record for each of them, in order, with the location's file as
  \<open>definitionFile\<close>. The state in which the location is first resolved is any state
  in which the recorded locations are pairwise different, their keys visited and the
  records in the order of the trace, as it is in every state that a traversal reaches.\<close>

theorem one_record_per_resolved_location:
  assumes "recordedOnce env st"
      and "locUri loc \<noteq> fileUri"
      and "definitionKey (locUri loc) (locLine loc) \<notin> visited st"
      and "openTextDocument env (locUri loc) = Some defDoc"
      and "extractDefinitionBlock defDoc (int (locLine loc)) maxCharsPerFile = Inr (sl, el, content)"
      and "st1 = snd (processLocation
                   (\<lambda>uri nextLines s. gatherRecursive env uri nextLines maxDepth (currentDepth + 1) s maxCharsPerFile)
                   env fileUri name maxCharsPerFile loc st)"
      and "visited st1 \<subseteq> visited st2"
  shows "(\<exists>more. results st1
            = results st
              @ \<lparr>symbolName = name, originFile = asRelativePath env fileUri,
                  definitionFile = asRelativePath env (locUri loc),
                  definitionContent = content, startLine = sl, endLine = el\<rparr> # more)
       \<and> count_list (recordedLocations (trace st1)) (locUri loc, locLine loc) = 1
       \<and> map definitionFile (results st1)
           = map (\<lambda>(u, l). asRelativePath env u) (recordedLocations (trace st1))
       \<and> processLocation recurse' env fileUri' name' maxCharsPerFile loc st2 = (Returned, st2)
       \<and> distinct (recordedLocations (trace (snd
             (gatherRecursive env origin changedLines maxDepth' 0 emptyState maxCharsPerFile))))
       \<and> map definitionFile (results (snd
             (gatherRecursive env origin changedLines maxDepth' 0 emptyState maxCharsPerFile)))
           = map (\<lambda>(u, l). asRelativePath env u)
               (recordedLocations (trace (snd
                 (gatherRecursive env origin changedLines maxDepth' 0 emptyState maxCharsPerFile))))"
proof -
  define ctx where "ctx = \<lparr>symbolName = name, originFile = asRelativePath env fileUri,
      definitionFile = asRelativePath env (locUri loc),
      definitionContent = content, startLine = sl, endLine = el\<rparr>"
  define stc where "stc = observe (Recorded (locUri loc) (locLine loc))
      (pushResult ctx (observe (OpenDocument (locUri loc))
         (addVisited (definitionKey (locUri loc) (locLine loc)) st)))"
  have st1: "st1 = snd (gatherRecursive env (locUri loc) [sl, (sl + el) div 2] maxDepth
      (currentDepth + 1) stc maxCharsPerFile)"
    unfolding assms(6) stc_def ctx_def
    by (simp add: processLocation_fresh [OF assms(2,3,4,5)])
  have rec: "recordStable env maxCharsPerFile (recordedOnce env)" by (rule recordedOnce_stable)
  have once_c: "recordedOnce env stc"
    using rec assms(1,3,4,5) unfolding recordStable_def stc_def ctx_def by blast
  have once1: "recordedOnce env st1"
    unfolding st1
    using recordedOnce_stable(1-4) rec once_c by (rule gatherRecursive_invariant)
  have "(locUri loc, locLine loc) \<in> set (recordedLocations (trace stc))"
    by (simp add: stc_def observe_def pushResult_def recordedLocations_append)
  with gatherRecursive_grows(3) [of stc env "locUri loc" "[sl, (sl + el) div 2]" maxDepth
      "currentDepth + 1" maxCharsPerFile]
  have mem: "(locUri loc, locLine loc) \<in> set (recordedLocations (trace st1))"
    unfolding st1 by blast
  from once1 have dist: "distinct (recordedLocations (trace st1))"
    by (simp add: recordedOnce_def distinct_map)
  have c1: "count_list (recordedLocations (trace st1)) (locUri loc, locLine loc) = 1"
    using dist mem by (rule count_list_distinct)
  have resc: "results stc = results st @ [ctx]"
    by (simp add: stc_def observe_def pushResult_def addVisited_def)
  from gatherRecursive_grows(1) [of env "locUri loc" "[sl, (sl + el) div 2]" maxDepth
      "currentDepth + 1" stc maxCharsPerFile]
  obtain more where "results st1 = results stc @ more" unfolding st1 by blast
  with resc have c0: "\<exists>more. results st1 = results st @ ctx # more" by simp
  have c2: "map definitionFile (results st1)
      = map (\<lambda>(u, l). asRelativePath env u) (recordedLocations (trace st1))"
    using once1 by (simp add: recordedOnce_def)
  have "definitionKey (locUri loc) (locLine loc) \<in> visited stc"
    by (simp add: stc_def observe_def pushResult_def addVisited_def)
  with gatherRecursive_grows(2) [of stc env "locUri loc" "[sl, (sl + el) div 2]" maxDepth
      "currentDepth + 1" maxCharsPerFile] assms(7)
  have "definitionKey (locUri loc) (locLine loc) \<in> visited st2"
    unfolding st1 by blast
  then have c3: "processLocation recurse' env fileUri' name' maxCharsPerFile loc st2 = (Returned, st2)"
    by (rule processLocation_known)
  have init: "recordedOnce env emptyState" by (simp add: recordedOnce_def emptyState_def)
  have "recordedOnce env (snd (gatherRecursive env origin changedLines maxDepth' 0 emptyState maxCharsPerFile))"
    using recordedOnce_stable(1-4) rec init by (rule gatherRecursive_invariant)
  then have c4: "distinct (recordedLocations (trace (snd
             (gatherRecursive env origin changedLines maxDepth' 0 emptyState maxCharsPerFile))))
       \<and> map definitionFile (results (snd
             (gatherRecursive env origin changedLines maxDepth' 0 emptyState maxCharsPerFile)))
           = map (\<lambda>(u, l). asRelativePath env u)
               (recordedLocations (trace (snd
                 (gatherRecursive env origin changedLines maxDepth' 0 emptyState maxCharsPerFile))))"
    by (simp add: recordedOnce_def distinct_map)
  from c0 c1 c2 c3 c4 show ?thesis unfolding ctx_def by blast
qed


theorem one_record_per_resolved_location_witness:
  "recordedOnce sharedEnv emptyState
   \<and> locUri \<lparr>locUri = ''K'', locLine = 1\<rparr> \<noteq> ''C''
   \<and> definitionKey ''K'' 1 \<notin> visited emptyState
   \<and> openTextDocument sharedEnv ''K'' = Some docClass
   \<and> extractDefinitionBlock docClass 1 20000 = Inr (1, 4, definitionContent ctxAlpha)
   \<and> (\<exists>st1. st1 = snd (processLocation
                 (\<lambda>uri nextLines s. gatherRecursive sharedEnv uri nextLines 5 (0 + 1) s 20000)
                 sharedEnv ''C'' ''alpha'' 20000 \<lparr>locUri = ''K'', locLine = 1\<rparr> emptyState)
        \<and> visited st1 \<subseteq> visited st1
        \<and> results st1 = [ctxAlpha]
        \<and> count_list (recordedLocations (trace st1)) (''K'', 1) = 1
        \<and> processLocation
             (\<lambda>uri nextLines s. gatherRecursive sharedEnv uri nextLines 5 (0 + 1) s 20000)
             sharedEnv ''C'' ''alpha'' 20000 \<lparr>locUri = ''K'', locLine = 1\<rparr> st1 = (Returned, st1))
   \<and> results (snd (gatherRecursive sharedEnv ''C'' [1, 2] 5 0 emptyState 20000)) = [ctxAlpha]
   \<and> recordedLocations (trace (snd (gatherRecursive sharedEnv ''C'' [1, 2] 5 0 emptyState 20000)))
       = [(''K'', 1)]
   \<and> distinct (recordedLocations (trace (snd (gatherRecursive sharedEnv ''C'' [1, 2] 5 0 emptyState 20000))))"
proof -
  let ?loc = "\<lparr>locUri = ''K'', locLine = 1\<rparr>"
  let ?R = "\<lambda>uri nextLines s. gatherRecursive sharedEnv uri nextLines 5 (0 + 1) s 20000"
  define st1 where "st1 = snd (processLocation ?R sharedEnv ''C'' ''alpha'' 20000 ?loc emptyState)"
  have h1: "recordedOnce sharedEnv emptyState" by (simp add: recordedOnce_def emptyState_def)
  have h2: "locUri ?loc \<noteq> ''C''" by simp
  have h3: "definitionKey (locUri ?loc) (locLine ?loc) \<notin> visited emptyState"
    by (simp add: emptyState_def)
  have h4: "openTextDocument sharedEnv (locUri ?loc) = Some docClass" by (simp add: sharedEnv_def)
  have h5: "extractDefinitionBlock docClass (int (locLine ?loc)) 20000
      = Inr (1, 4, definitionContent ctxAlpha)" by code_simp
  have h7: "visited st1 \<subseteq> visited st1" by simp
  have r: "results (snd (processLocation ?R sharedEnv ''C'' ''alpha'' 20000 ?loc emptyState)) = [ctxAlpha]"
    by code_simp
  have w: "results (snd (gatherRecursive sharedEnv ''C'' [1, 2] 5 0 emptyState 20000)) = [ctxAlpha]"
    by code_simp
  have t: "recordedLocations (trace (snd (gatherRecursive sharedEnv ''C'' [1, 2] 5 0 emptyState 20000)))
       = [(''K'', 1)]" by code_simp
  from one_record_per_resolved_location [OF h1 h2 h3 h4 h5 st1_def h7,
      where recurse' = ?R and fileUri' = "''C''" and name' = "''alpha''" and origin = "''C''"
        and changedLines = "[1, 2]" and maxDepth' = 5]
    h1 h2 h3 h4 h5 r w t
  show ?thesis unfolding st1_def by simp
qed

subsection \<open>Truncation\<close>

text \<open>Claim C7. The budget is a number of characters, that is a whole number that is not
  negative. When the text accumulated for a block exceeds the budget, be it the count that
  the downward loop keeps (every line with one character for its ending) or the text that
  is taken from the document for the lines found (with the document's own line endings,
  which are two characters each in a document with Windows line endings), the record
  appended for the block has a content of exactly the budget's length; its \<open>startLine\<close>
  and \<open>endLine\<close> are the bounds that the two loops found before the content was cut, and
  the recursive call that follows is seeded with the start line and the midpoint of these
  bounds.\<close>

theorem truncated_block_recorded_and_seeded:
  assumes "0 \<le> maxCharsPerFile"
      and "locUri loc \<noteq> fileUri"
      and "definitionKey (locUri loc) (locLine loc) \<notin> visited st"
      and "openTextDocument env (locUri loc) = Some defDoc"
      and "locateBlock defDoc (int (locLine loc)) maxCharsPerFile = Inr (blockStart, s)"
      and "maxCharsPerFile < charCount s
           \<or> maxCharsPerFile < int (length (getTextOfLines defDoc blockStart (blockEnd s)))"
  shows "\<exists>ctx st'.
      processLocation
        (\<lambda>uri nextLines s. gatherRecursive env uri nextLines maxDepth (currentDepth + 1) s maxCharsPerFile)
        env fileUri name maxCharsPerFile loc st
        = (Returned,
           snd (gatherRecursive env (locUri loc)
                  [blockStart + 1, (blockStart + 1 + (blockEnd s + 1)) div 2]
                  maxDepth (currentDepth + 1) st' maxCharsPerFile))
      \<and> results st' = results st @ [ctx]
      \<and> int (length (definitionContent ctx)) = maxCharsPerFile
      \<and> startLine ctx = blockStart + 1 \<and> endLine ctx = blockEnd s + 1"
proof -
  define content where "content = slice0 (getTextOfLines defDoc blockStart (blockEnd s)) maxCharsPerFile"
  define ctx where "ctx = \<lparr>symbolName = name, originFile = asRelativePath env fileUri,
      definitionFile = asRelativePath env (locUri loc), definitionContent = content,
      startLine = blockStart + 1, endLine = blockEnd s + 1\<rparr>"
  define st' where "st' = observe (Recorded (locUri loc) (locLine loc))
      (pushResult ctx (observe (OpenDocument (locUri loc))
         (addVisited (definitionKey (locUri loc) (locLine loc)) st)))"
  have blk: "extractDefinitionBlock defDoc (int (locLine loc)) maxCharsPerFile
      = Inr (blockStart + 1, blockEnd s + 1, content)"
    using assms(5) by (simp add: extractDefinitionBlock_def content_def)
  have len: "int (length content) = maxCharsPerFile"
  proof (cases "maxCharsPerFile < charCount s")
    case True
    show ?thesis
      unfolding content_def using assms(5) _ assms(1) True by (rule truncated_content_length) simp
  next
    case False
    with assms(6) have "maxCharsPerFile \<le> int (length (getTextOfLines defDoc blockStart (blockEnd s)))"
      by simp
    with assms(1) show ?thesis unfolding content_def by (rule slice0_exact)
  qed
  have run: "processLocation
        (\<lambda>uri nextLines s. gatherRecursive env uri nextLines maxDepth (currentDepth + 1) s maxCharsPerFile)
        env fileUri name maxCharsPerFile loc st
        = (Returned,
           snd (gatherRecursive env (locUri loc)
                  [blockStart + 1, (blockStart + 1 + (blockEnd s + 1)) div 2]
                  maxDepth (currentDepth + 1) st' maxCharsPerFile))"
    using assms(2,3,4) blk by (simp add: processLocation_def Let_def ctx_def st'_def)
  have res: "results st' = results st @ [ctx]"
    by (simp add: st'_def observe_def pushResult_def addVisited_def)
  have c1: "int (length (definitionContent ctx)) = maxCharsPerFile"
    using len by (simp add: ctx_def)
  have c2: "startLine ctx = blockStart + 1 \<and> endLine ctx = blockEnd s + 1"
    by (simp add: ctx_def)
  from run res c1 c2 show ?thesis by blast
qed

theorem truncated_block_recorded_and_seeded_witness:
  "(0::int) \<le> 37
   \<and> locUri \<lparr>locUri = ''D'', locLine = 1\<rparr> \<noteq> ''M''
   \<and> definitionKey ''D'' 1 \<notin> visited emptyState
   \<and> openTextDocument blockEnv ''D'' = Some docBlock
   \<and> locateBlock docBlock 1 37
       = Inr (1, \<lparr>braceDepth = 0, foundOpenBrace = True, charCount = 37, blockEnd = 4\<rparr>)
   \<and> length (getTextOfLines docBlock 1 4) = 39
   \<and> (\<exists>ctx st'.
        processLocation (\<lambda>uri nextLines s. gatherRecursive blockEnv uri nextLines 5 (0 + 1) s 37)
          blockEnv ''M'' ''foo'' 37 \<lparr>locUri = ''D'', locLine = 1\<rparr> emptyState
          = (Returned, snd (gatherRecursive blockEnv ''D'' [2, 3] 5 (0 + 1) st' 37))
        \<and> results st' = [ctx]
        \<and> int (length (definitionContent ctx)) = 37
        \<and> startLine ctx = 2 \<and> endLine ctx = 5)
   \<and> locateBlock docBlock 1 30
       = Inr (1, \<lparr>braceDepth = 1, foundOpenBrace = True, charCount = 35, blockEnd = 3\<rparr>)
   \<and> (\<exists>ctx st'.
        processLocation (\<lambda>uri nextLines s. gatherRecursive blockEnv uri nextLines 5 (0 + 1) s 30)
          blockEnv ''M'' ''foo'' 30 \<lparr>locUri = ''D'', locLine = 1\<rparr> emptyState
          = (Returned, snd (gatherRecursive blockEnv ''D'' [2, 3] 5 (0 + 1) st' 30))
        \<and> results st' = [ctx]
        \<and> int (length (definitionContent ctx)) = 30
        \<and> startLine ctx = 2 \<and> endLine ctx = 4)"
proof -
  let ?loc = "\<lparr>locUri = ''D'', locLine = 1\<rparr>"
  let ?s = "\<lparr>braceDepth = 0, foundOpenBrace = True, charCount = 37, blockEnd = 4\<rparr>"
  let ?t = "\<lparr>braceDepth = 1, foundOpenBrace = True, charCount = 35, blockEnd = 3\<rparr>"
  have h1: "(0::int) \<le> 37" and k1: "(0::int) \<le> 30" by simp_all
  have h2: "locUri ?loc \<noteq> ''M''" by simp
  have h3: "definitionKey (locUri ?loc) (locLine ?loc) \<notin> visited emptyState"
    by (simp add: emptyState_def)
  have h4: "openTextDocument blockEnv (locUri ?loc) = Some docBlock" by (simp add: blockEnv_def)
  have h5: "locateBlock docBlock (int (locLine ?loc)) 37 = Inr (1, ?s)" by code_simp
  have k5: "locateBlock docBlock (int (locLine ?loc)) 30 = Inr (1, ?t)" by code_simp
  have len: "length (getTextOfLines docBlock 1 4) = 39" by code_simp
  then have h6: "37 < charCount ?s \<or> 37 < int (length (getTextOfLines docBlock 1 (blockEnd ?s)))"
    by simp
  have k6: "30 < charCount ?t \<or> 30 < int (length (getTextOfLines docBlock 1 (blockEnd ?t)))"
    by simp
  from truncated_block_recorded_and_seeded [OF h1 h2 h3 h4 h5 h6, of 5 0 "''foo''"]
    truncated_block_recorded_and_seeded [OF k1 h2 h3 h4 k5 k6, of 5 0 "''foo''"]
    h1 h2 h3 h4 h5 k5 len
  show ?thesis by (simp add: emptyState_def)
qed

subsection \<open>A mutual reference\<close>

lemma cycleEnv_relative: "asRelativePath cycleEnv u = u"
  by (simp add: cycleEnv_def)

lemma revisit_state:
  "fileUri \<in> visited st \<Longrightarrow>
   gatherRecursive env fileUri ls maxDepth currentDepth st mc
     = (Returned, if currentDepth < maxDepth then observe (OpenDocument fileUri) st else st)"
  by (cases "maxDepth \<le> currentDepth") (simp_all add: gatherRecursive_gate gatherRecursive_revisit)

text \<open>Claim C2, as stated: with \<open>maxDepth = 5\<close> the mutual reference between \<open>X\<close> and
  \<open>Y\<close> gives exactly one record. It gives two: the block of \<open>foo\<close> in \<open>Y\<close>, and then
  the block of \<open>bar\<close> in \<open>X\<close>, found from the middle line of the first block.\<close>

theorem cycle_not_one_record:
  "gatherDefinitionsForChangedLines cycleEnv ''X'' [2] 5 20000 \<noteq> Inr [ctxFoo]
   \<and> map_sum id length (gatherDefinitionsForChangedLines cycleEnv ''X'' [2] 5 20000) = Inr 2"
  by code_simp

text \<open>Claim C2, amended: the traversal returns for every input (\<open>gatherRecursive\<close> is
  defined by recursion on \<open>maxDepth - currentDepth\<close>), and records are only ever
  appended, so the first one discovered stays first; but a mutual reference does not end
  the result there. When, while \<open>Y\<close> is scanned, a name resolves to a location in the
  file \<open>X\<close> that was scanned before, the location is not skipped (only locations in the
  file being scanned are): if its key is not yet visited and its block can be extracted,
  exactly one record for that block is appended, with \<open>Y\<close> as \<open>originFile\<close> and \<open>X\<close>
  as \<open>definitionFile\<close>; the recursive call into \<open>X\<close> that follows finds \<open>X\<close> in the
  visited set and adds nothing more: no record, no key, no resolved position, only one more
  request for the document of \<open>X\<close> when the depth bound is not reached. For the sample
  files the result is the block in \<open>Y\<close> followed by the block in \<open>X\<close>.\<close>

theorem cycle_back_reference_recorded:
  assumes "locUri loc \<in> visited st"
      and "locUri loc \<noteq> fileUri"
      and "definitionKey (locUri loc) (locLine loc) \<notin> visited st"
      and "openTextDocument env (locUri loc) = Some defDoc"
      and "extractDefinitionBlock defDoc (int (locLine loc)) maxCharsPerFile = Inr (sl, el, content)"
  shows "processLocation
           (\<lambda>uri nextLines s. gatherRecursive env uri nextLines maxDepth (currentDepth + 1) s maxCharsPerFile)
           env fileUri name maxCharsPerFile loc st
         = (Returned,
            st\<lparr>visited := insert (definitionKey (locUri loc) (locLine loc)) (visited st),
               results := results st
                 @ [\<lparr>symbolName = name, originFile = asRelativePath env fileUri,
                      definitionFile = asRelativePath env (locUri loc),
                      definitionContent = content, startLine = sl, endLine = el\<rparr>],
               trace := trace st @ [OpenDocument (locUri loc), Recorded (locUri loc) (locLine loc)]
                 @ (if currentDepth + 1 < maxDepth then [OpenDocument (locUri loc)] else [])\<rparr>)
       \<and> (\<exists>more. results (snd (gatherRecursive env origin changedLines maxDepth' depth st0 maxCharsPerFile))
             = results st0 @ more)"
proof -
  define ctx where "ctx = \<lparr>symbolName = name, originFile = asRelativePath env fileUri,
      definitionFile = asRelativePath env (locUri loc),
      definitionContent = content, startLine = sl, endLine = el\<rparr>"
  define stc where "stc = observe (Recorded (locUri loc) (locLine loc))
      (pushResult ctx (observe (OpenDocument (locUri loc))
         (addVisited (definitionKey (locUri loc) (locLine loc)) st)))"
  have known: "locUri loc \<in> visited stc"
    using assms(1) by (simp add: stc_def observe_def pushResult_def addVisited_def)
  have "processLocation
           (\<lambda>uri nextLines s. gatherRecursive env uri nextLines maxDepth (currentDepth + 1) s maxCharsPerFile)
           env fileUri name maxCharsPerFile loc st
      = (Returned, snd (gatherRecursive env (locUri loc) [sl, (sl + el) div 2] maxDepth
           (currentDepth + 1) stc maxCharsPerFile))"
    unfolding stc_def ctx_def by (simp add: processLocation_fresh [OF assms(2,3,4,5)])
  also have "snd (gatherRecursive env (locUri loc) [sl, (sl + el) div 2] maxDepth
           (currentDepth + 1) stc maxCharsPerFile)
      = (if currentDepth + 1 < maxDepth then observe (OpenDocument (locUri loc)) stc else stc)"
    by (simp add: revisit_state [OF known])
  also have "\<dots> = st\<lparr>visited := insert (definitionKey (locUri loc) (locLine loc)) (visited st),
               results := results st @ [ctx],
               trace := trace st @ [OpenDocument (locUri loc), Recorded (locUri loc) (locLine loc)]
                 @ (if currentDepth + 1 < maxDepth then [OpenDocument (locUri loc)] else [])\<rparr>"
    by (simp add: stc_def observe_def pushResult_def addVisited_def)
  finally show ?thesis
    using gatherRecursive_grows(1) [of env origin changedLines maxDepth' depth st0 maxCharsPerFile]
    unfolding ctx_def by simp
qed

theorem cycle_back_reference_recorded_witness:
  "locUri \<lparr>locUri = ''X'', locLine = 0\<rparr> \<in> visited (addVisited ''X'' emptyState)
   \<and> locUri \<lparr>locUri = ''X'', locLine = 0\<rparr> \<noteq> ''Y''
   \<and> definitionKey ''X'' 0 \<notin> visited (addVisited ''X'' emptyState)
   \<and> openTextDocument cycleEnv ''X'' = Some docX
   \<and> extractDefinitionBlock docX 0 20000 = Inr (1, 3, definitionContent ctxBar)
   \<and> processLocation (\<lambda>uri nextLines s. gatherRecursive cycleEnv uri nextLines 5 (1 + 1) s 20000)
        cycleEnv ''Y'' ''bar'' 20000 \<lparr>locUri = ''X'', locLine = 0\<rparr> (addVisited ''X'' emptyState)
       = (Returned,
          \<lparr>visited = {''X:0'', ''X''}, results = [ctxBar],
           trace = [OpenDocument ''X'', Recorded ''X'' 0, OpenDocument ''X'']\<rparr>)
   \<and> gatherDefinitionsForChangedLines cycleEnv ''X'' [2] 5 20000 = Inr [ctxFoo, ctxBar]"
proof -
  let ?loc = "\<lparr>locUri = ''X'', locLine = 0\<rparr>"
  let ?st = "addVisited ''X'' emptyState"
  have h1: "locUri ?loc \<in> visited ?st" by (simp add: addVisited_def)
  have h2: "locUri ?loc \<noteq> ''Y''" by simp
  have k: "definitionKey ''X'' 0 = ''X:0''" by code_simp
  then have h3: "definitionKey (locUri ?loc) (locLine ?loc) \<notin> visited ?st"
    by (simp add: addVisited_def emptyState_def)
  have h4: "openTextDocument cycleEnv (locUri ?loc) = Some docX" by (simp add: cycleEnv_def)
  have h5: "extractDefinitionBlock docX (int (locLine ?loc)) 20000 = Inr (1, 3, definitionContent ctxBar)"
    by code_simp
  have w: "gatherDefinitionsForChangedLines cycleEnv ''X'' [2] 5 20000 = Inr [ctxFoo, ctxBar]"
    by code_simp
  have same: "\<lparr>symbolName = ''bar'', originFile = asRelativePath cycleEnv ''Y'',
      definitionFile = asRelativePath cycleEnv ''X'', definitionContent = definitionContent ctxBar,
      startLine = 1, endLine = 3\<rparr> = ctxBar"
    by (simp add: ctxBar_def cycleEnv_relative)
  from cycle_back_reference_recorded [OF h1 h2 h3 h4 h5,
      where currentDepth = 1 and maxDepth = 5 and name = "''bar''", THEN conjunct1]
  have "processLocation (\<lambda>uri nextLines s. gatherRecursive cycleEnv uri nextLines 5 (1 + 1) s 20000)
        cycleEnv ''Y'' ''bar'' 20000 ?loc ?st
       = (Returned,
          \<lparr>visited = {''X:0'', ''X''}, results = [ctxBar],
           trace = [OpenDocument ''X'', Recorded ''X'' 0, OpenDocument ''X'']\<rparr>)"
    by (simp add: addVisited_def emptyState_def k same)
  with h1 h2 h3 h4 h5 w show ?thesis by simp
qed

end
